theory Spec2Isabelle
  imports Complex_Main "HOL-Library.Sublist" "HOL-Library.AList"
begin

section \<open>Python values used by the retrieval engine\<close>

text \<open>
  A Python \<open>str\<close> is modelled as a \<open>string\<close>, one \<open>char\<close> per code point (the
  code points U+0000 to U+00FF), so that \<open>length\<close> is Python's \<open>len\<close>.
  \<open>isspace\<close> is the whitespace of \<open>str.strip()\<close>, \<open>str.isspace()\<close> and the
  regular expression class \<open>\s\<close> on that range.
\<close>

definition isspace :: "char \<Rightarrow> bool" where
  "isspace c \<longleftrightarrow> of_char c \<in> {9, 10, 11, 12, 13, 28, 29, 30, 31, 32, 133, 160 :: nat}"

definition strip :: "string \<Rightarrow> string" where
  "strip s = rev (dropWhile isspace (rev (dropWhile isspace s)))"

text \<open>The values a metadata dict holds; a dict with string keys is a map.\<close>

datatype pyval = PyStr string | PyInt int | PyFloat real

type_synonym metadata = "string \<rightharpoonup> pyval"

text \<open>The exceptions the modelled code can raise.\<close>

datatype error = AssertionError | ValueError | OSError | JSONDecodeError

section \<open>The vector index library, as the store uses it\<close>

text \<open>
  \<open>faiss.IndexFlatIP\<close> keeps its dimension \<open>d\<close> and the stored rows in insertion
  order; \<open>ntotal\<close> is the number of rows. \<open>index.add(x)\<close> asserts that the rows have
  \<open>d\<close> columns and appends them. Vectors are lists of reals: the float32 rounding of the
  library is not represented.
\<close>

type_synonym vec = "real list"

record faiss_index =
  dimension :: nat
  vectors :: "vec list"

definition IndexFlatIP :: "nat \<Rightarrow> faiss_index" where
  "IndexFlatIP n = \<lparr>dimension = n, vectors = []\<rparr>"

definition ntotal :: "faiss_index \<Rightarrow> nat" where
  "ntotal ix = length (vectors ix)"

definition index_add :: "faiss_index \<Rightarrow> vec list \<Rightarrow> error + faiss_index" where
  "index_add ix x =
     (if list_all (\<lambda>v. length v = dimension ix) x
      then Inr (ix\<lparr>vectors := vectors ix @ x\<rparr>)
      else Inl AssertionError)"

section \<open>embed\_store.py\<close>

text \<open>
  What a file on disk holds when the store looks at it: nothing (\<open>Missing\<close>), zero
  bytes (\<open>Empty\<close>), bytes the reader rejects (\<open>Unreadable\<close>) or a saved value.
\<close>

datatype 'a disk_file = Missing | Empty | Unreadable | Holds 'a

text \<open>
  The fields of \<open>EmbedStore\<close> (\<open>dim\<close>, \<open>index\<close>, \<open>meta\<close>), the two files
  \<open>VEC_FILE\<close> and \<open>META_FILE\<close> it loads and saves, and \<open>progress\<close>, the percentages
  a progress callback has received so far (the callback's messages are left out).
\<close>

record embed_state =
  store_dim :: nat
  index :: "faiss_index option"
  meta :: "metadata list"
  VEC_FILE :: "faiss_index disk_file"
  META_FILE :: "metadata list disk_file"
  progress :: "int list"

text \<open>\<open>while len(self.meta) < self.index.ntotal: self.meta.append({})\<close>\<close>

function pad_meta :: "nat \<Rightarrow> metadata list \<Rightarrow> metadata list" where
  "pad_meta n ms = (if length ms < n then pad_meta n (ms @ [Map.empty]) else ms)"
  by pat_completeness auto
termination
  by (relation "measure (\<lambda>(n, ms). n - length ms)") auto

declare pad_meta.simps [simp del]

text \<open>The body of \<open>_load\<close> inside its \<open>try\<close>: \<open>Inl\<close> is an exception raised there.\<close>

definition load_try :: "embed_state \<Rightarrow> error + embed_state" where
  "load_try s =
     (case (case VEC_FILE s of
              Holds ix \<Rightarrow> Inr ix
            | Unreadable \<Rightarrow> Inl OSError
            | _ \<Rightarrow> Inr (IndexFlatIP (store_dim s))) of
        Inl e \<Rightarrow> Inl e
      | Inr ix \<Rightarrow>
          (case (case META_FILE s of
                   Missing \<Rightarrow> Inr (meta s)
                 | Holds ms \<Rightarrow> Inr ms
                 | _ \<Rightarrow> Inl JSONDecodeError) of
             Inl e \<Rightarrow> Inl e
           | Inr ms \<Rightarrow>
               Inr (s\<lparr>index := Some ix,
                      meta := (if ntotal ix > length ms then pad_meta (ntotal ix) ms
                               else if ntotal ix < length ms then take (ntotal ix) ms
                               else ms)\<rparr>)))"

definition load :: "embed_state \<Rightarrow> embed_state" where
  "load s =
     (case load_try s of
        Inr s' \<Rightarrow> s'
      | Inl e \<Rightarrow> s\<lparr>index := Some (IndexFlatIP (store_dim s)), meta := []\<rparr>)"

text \<open>\<open>EmbedStore.__init__\<close>, given the dimension and what the two files hold.\<close>

definition init_store :: "nat \<Rightarrow> faiss_index disk_file \<Rightarrow> metadata list disk_file \<Rightarrow> embed_state" where
  "init_store n vf mf =
     load \<lparr>store_dim = n, index = None, meta = [], VEC_FILE = vf, META_FILE = mf, progress = []\<rparr>"

text \<open>\<open>_save\<close>: the index file is only written when the index holds a vector.\<close>

definition save :: "embed_state \<Rightarrow> embed_state" where
  "save s =
     (let s1 = (case index s of
                  Some ix \<Rightarrow> if ntotal ix > 0 then s\<lparr>VEC_FILE := Holds ix\<rparr> else s
                | None \<Rightarrow> s)
      in s1\<lparr>META_FILE := Holds (meta s1)\<rparr>)"

text \<open>\<open>np.linalg.norm\<close> and \<open>_normalize\<close>.\<close>

definition linalg_norm :: "vec \<Rightarrow> real" where
  "linalg_norm v = sqrt (\<Sum>x\<leftarrow>v. x * x)"

definition normalize_vec :: "vec \<Rightarrow> vec" where
  "normalize_vec v = (let n = linalg_norm v in if n > 0 then map (\<lambda>x. x / n) v else v)"

text \<open>
  \<open>add\<close>. The embedding model is the parameter \<open>enc\<close> (one vector per text). The
  result is the exception raised, if any, and the state the call leaves.
\<close>

definition add :: "(string \<Rightarrow> vec) \<Rightarrow> embed_state \<Rightarrow> string \<Rightarrow> metadata
    \<Rightarrow> error option \<times> embed_state" where
  "add enc s chunk_text metadata =
     (if chunk_text = [] \<or> strip chunk_text = [] then (None, s)
      else
        let emb = normalize_vec (enc chunk_text);
            ix = (case index s of None \<Rightarrow> IndexFlatIP (store_dim s) | Some ix \<Rightarrow> ix)
        in case index_add ix [emb] of
             Inl e \<Rightarrow> (Some e, s\<lparr>index := Some ix\<rparr>)
           | Inr ix' \<Rightarrow>
               (None, save (s\<lparr>index := Some ix',
                               meta := meta s @ [metadata(''chunk_text'' \<mapsto> PyStr chunk_text)]\<rparr>)))"

text \<open>
  \<open>if progress_callback: progress_callback(p, message)\<close>: with a callback, the
  percentage is appended to the log of what the callback has received.
\<close>

definition notify :: "bool \<Rightarrow> int list \<Rightarrow> int \<Rightarrow> int list" where
  "notify cb plog p = (if cb then plog @ [p] else plog)"

text \<open>
  The embedding loop of \<open>add_batch\<close>:
  \<open>for i in range(0, len(valid_chunks), batch_size)\<close> with \<open>batch_size = 100\<close>.
  It carries the progress log and \<open>all_embeddings\<close>. \<open>cb\<close> says whether a progress
  callback was passed. \<open>int((i / len(valid_chunks)) * 15)\<close> is computed on exact
  fractions.
\<close>

function embed_loop :: "(string \<Rightarrow> vec) \<Rightarrow> bool \<Rightarrow> string list \<Rightarrow> nat
    \<Rightarrow> int list \<times> vec list list \<Rightarrow> int list \<times> vec list list" where
  "embed_loop enc cb valid_chunks i (plog, all_embeddings) =
     (if i < length valid_chunks then
        let batch_chunks = take 100 (drop i valid_chunks);
            plog' = (if i > 0
                     then notify cb plog (65 + \<lfloor>(real i / real (length valid_chunks)) * 15\<rfloor>)
                     else plog);
            batch_embeddings = map enc batch_chunks
        in embed_loop enc cb valid_chunks (i + 100) (plog', all_embeddings @ [batch_embeddings])
      else (plog, all_embeddings))"
  by pat_completeness auto
termination
  by (relation "measure (\<lambda>(enc, cb, valid_chunks, i, acc). length valid_chunks - i)") auto

declare embed_loop.simps [simp del]

text \<open>The vectorised normalisation of \<open>add_batch\<close>: a zero norm is replaced by 1.\<close>

definition normalize_rows :: "vec list \<Rightarrow> vec list" where
  "normalize_rows embeddings =
     map (\<lambda>v. let n = linalg_norm v; n' = (if n = 0 then 1 else n) in map (\<lambda>x. x / n') v)
       embeddings"

definition add_batch :: "(string \<Rightarrow> vec) \<Rightarrow> bool \<Rightarrow> embed_state \<Rightarrow> string list
    \<Rightarrow> metadata list \<Rightarrow> error option \<times> embed_state" where
  "add_batch enc cb s chunks metadata_list =
     (if chunks = [] \<or> length chunks \<noteq> length metadata_list then (None, s)
      else
        let valid = filter (\<lambda>(chunk, m). chunk \<noteq> [] \<and> strip chunk \<noteq> []) (zip chunks metadata_list);
            valid_chunks = map fst valid;
            valid_metadata = map snd valid
        in if valid_chunks = [] then (None, s)
           else
             let log1 = notify cb (progress s) 65;
                 (log2, all_embeddings) = embed_loop enc cb valid_chunks 0 (log1, []);
                 embeddings = concat all_embeddings;
                 log3 = notify cb log2 80;
                 embeddings = normalize_rows embeddings;
                 log4 = notify cb log3 85;
                 ix = (case index s of None \<Rightarrow> IndexFlatIP (store_dim s) | Some ix \<Rightarrow> ix)
             in case index_add ix embeddings of
                  Inl e \<Rightarrow> (Some e, s\<lparr>index := Some ix, progress := log4\<rparr>)
                | Inr ix' \<Rightarrow>
                    let mds = map (\<lambda>(i, m). m(''chunk_text'' \<mapsto> PyStr (valid_chunks ! i)))
                                (enumerate 0 valid_metadata);
                        log5 = notify cb log4 90
                    in (None, save (s\<lparr>index := Some ix', meta := meta s @ mds,
                                       progress := log5\<rparr>)))"

text \<open>
  \<open>search\<close>. The index's own search is the parameter \<open>isearch\<close>: given the index,
  the query row and \<open>k\<close> it yields the \<open>(distance, label)\<close> pairs of
  \<open>index.search\<close>. The library asserts the query's dimension and \<open>k > 0\<close>; any
  exception makes \<open>search\<close> return the empty list.
\<close>

definition index_search :: "(faiss_index \<Rightarrow> vec \<Rightarrow> nat \<Rightarrow> (real \<times> int) list)
    \<Rightarrow> faiss_index \<Rightarrow> vec \<Rightarrow> int \<Rightarrow> error + (real \<times> int) list" where
  "index_search isearch ix q k =
     (if length q = dimension ix \<and> k > 0 then Inr (isearch ix q (nat k))
      else Inl AssertionError)"

fun collect_results :: "metadata list \<Rightarrow> (real \<times> int) list \<Rightarrow> metadata list" where
  "collect_results ms [] = []"
| "collect_results ms ((dst, idx) # rest) =
     (if idx < 0 \<or> idx \<ge> int (length ms) then collect_results ms rest
      else ((ms ! nat idx)(''score'' \<mapsto> PyFloat dst)) # collect_results ms rest)"

definition search :: "(string \<Rightarrow> vec) \<Rightarrow> (faiss_index \<Rightarrow> vec \<Rightarrow> nat \<Rightarrow> (real \<times> int) list)
    \<Rightarrow> embed_state \<Rightarrow> string \<Rightarrow> int \<Rightarrow> metadata list \<times> embed_state" where
  "search enc isearch s query top_k =
     (case index s of
        None \<Rightarrow> ([], s)
      | Some ix \<Rightarrow>
          if ntotal ix = 0 then ([], s)
          else if query = [] \<or> strip query = [] then ([], s)
          else
            let q_emb = normalize_vec (enc query);
                n_to_search = min top_k (int (ntotal ix))
            in (case index_search isearch ix q_emb n_to_search of
                  Inl e \<Rightarrow> ([], s)
                | Inr found \<Rightarrow> (collect_results (meta s) found, s)))"

text \<open>\<open>get_stats()["total_chunks"]\<close>, the size of the vector index.\<close>

definition total_chunks :: "embed_state \<Rightarrow> nat" where
  "total_chunks s = (case index s of Some ix \<Rightarrow> ntotal ix | None \<Rightarrow> 0)"

text \<open>
  Sequences of \<open>add\<close> and \<open>add_batch\<close> calls on one store; the flag of
  \<open>AddBatch\<close> says whether the call passes a progress callback. A call that raises
  leaves the state it had reached, and the next call starts from there.
\<close>

datatype store_op = Add string metadata | AddBatch "string list" "metadata list" bool

fun exec_op :: "(string \<Rightarrow> vec) \<Rightarrow> embed_state \<Rightarrow> store_op \<Rightarrow> embed_state" where
  "exec_op enc s (Add chunk_text metadata) = snd (add enc s chunk_text metadata)"
| "exec_op enc s (AddBatch chunks metadata_list cb) = snd (add_batch enc cb s chunks metadata_list)"

definition run_ops :: "(string \<Rightarrow> vec) \<Rightarrow> embed_state \<Rightarrow> store_op list \<Rightarrow> embed_state" where
  "run_ops enc s ops = foldl (exec_op enc) s ops"

subsection \<open>Notions used to state the store's properties\<close>

text \<open>The rows the index holds, in insertion order (none while there is no index).\<close>

definition stored_vectors :: "embed_state \<Rightarrow> vec list" where
  "stored_vectors s = (case index s of Some ix \<Rightarrow> vectors ix | None \<Rightarrow> [])"

text \<open>The entries of a batch that survive the filter for empty chunks.\<close>

definition valid_pairs :: "string list \<Rightarrow> metadata list \<Rightarrow> (string \<times> metadata) list" where
  "valid_pairs chunks mds = filter (\<lambda>(chunk, m). chunk \<noteq> [] \<and> strip chunk \<noteq> []) (zip chunks mds)"

text \<open>
  Vector and metadata at the same position belong together: the metadata records the
  chunk text and the vector is that text's normalised embedding.
\<close>

definition aligned :: "(string \<Rightarrow> vec) \<Rightarrow> embed_state \<Rightarrow> bool" where
  "aligned enc s \<longleftrightarrow>
     list_all2 (\<lambda>v m. \<exists>c. m ''chunk_text'' = Some (PyStr c) \<and> v = normalize_vec (enc c))
       (stored_vectors s) (meta s)"

text \<open>Concrete inputs for the examples: an embedder of dimension 2 and two small stores.\<close>

definition example_encoder :: "string \<Rightarrow> vec" where
  "example_encoder t = [3, 4]"

definition example_store :: embed_state where
  "example_store = init_store 2 Missing Missing"

definition example_store1 :: embed_state where
  "example_store1 = snd (add example_encoder example_store ''hello'' [''page'' \<mapsto> PyInt 1])"

section \<open>cache.py\<close>

text \<open>
  The Redis server behind \<open>redis_client\<close>: whether it can be reached (when it cannot,
  every call on the client raises, and the cache catches the exception), and the keys it
  holds, each with the expiry given to \<open>setex\<close> and the cached value. The JSON text of a
  value stands for the value itself (\<open>json.loads(json.dumps(v)) = v\<close>). The passing of
  time, and with it the expiry of a key, is not represented.
\<close>

record 'v redis =
  reachable :: bool
  db :: "string \<rightharpoonup> (int \<times> 'v)"

text \<open>
  \<open>memory_cache\<close> is a Python dict, whose keys stay in insertion order: an association
  list with \<open>AList.update\<close> for \<open>d[k] = v\<close>, \<open>AList.delete\<close> for \<open>del d[k]\<close>
  and \<open>map_of\<close> for the lookup.
\<close>

record 'v cache =
  redis_client :: "'v redis option"
  memory_cache :: "(string \<times> 'v) list"

definition CACHE_TTL :: int where
  "CACHE_TTL = 3600"

text \<open>\<open>Cache.__init__\<close>, given the client it could connect (or none).\<close>

definition new_cache :: "'v redis option \<Rightarrow> 'v cache" where
  "new_cache r = \<lparr>redis_client = r, memory_cache = []\<rparr>"

text \<open>
  \<open>_make_key\<close>. \<open>hexdigest\<close> stands for \<open>hashlib.md5(query.encode()).hexdigest()\<close>.
\<close>

definition make_key :: "(string \<Rightarrow> string) \<Rightarrow> string \<Rightarrow> string \<Rightarrow> string" where
  "make_key hexdigest pfx query = ''bookvision:'' @ pfx @ '':'' @ hexdigest query"

definition get :: "(string \<Rightarrow> string) \<Rightarrow> 'v cache \<Rightarrow> string \<Rightarrow> string \<Rightarrow> 'v option" where
  "get hexdigest c pfx query =
     (let key = make_key hexdigest pfx query;
          cached = (case redis_client c of
                      Some r \<Rightarrow> if reachable r then map_option snd (db r key) else None
                    | None \<Rightarrow> None)
      in case cached of
           Some v \<Rightarrow> Some v
         | None \<Rightarrow> map_of (memory_cache c) key)"

text \<open>
  \<open>set\<close>. \<open>ttl = ttl or CACHE_TTL\<close>; \<open>setex\<close> raises when the server cannot be reached
  or the expiry is not positive, and the call then falls through to the memory cache.
\<close>

definition set_value :: "(string \<Rightarrow> string) \<Rightarrow> 'v cache \<Rightarrow> string \<Rightarrow> string \<Rightarrow> 'v
    \<Rightarrow> int option \<Rightarrow> 'v cache" where
  "set_value hexdigest c pfx query v ttl =
     (let key = make_key hexdigest pfx query;
          ttl' = (case ttl of None \<Rightarrow> CACHE_TTL | Some t \<Rightarrow> if t = 0 then CACHE_TTL else t);
          stored = (case redis_client c of
                      Some r \<Rightarrow> if reachable r \<and> ttl' > 0
                                then Some (r\<lparr>db := (db r)(key \<mapsto> (ttl', v))\<rparr>) else None
                    | None \<Rightarrow> None)
      in case stored of
           Some r' \<Rightarrow> c\<lparr>redis_client := Some r'\<rparr>
         | None \<Rightarrow>
             let mc = AList.update key v (memory_cache c)
             in if length mc > 1000
                then c\<lparr>memory_cache := foldl (\<lambda>d k. AList.delete k d) mc (take 100 (map fst mc))\<rparr>
                else c\<lparr>memory_cache := mc\<rparr>)"

text \<open>
  \<open>clear\<close>. The argument is \<open>None\<close> or a string; \<open>if prefix:\<close> is false for both
  \<open>None\<close> and the empty string. \<open>matches\<close> stands for the server's glob matching in
  \<open>keys(pattern)\<close>; \<open>flushdb\<close> empties the database.
\<close>

definition clear :: "(string \<Rightarrow> string \<Rightarrow> bool) \<Rightarrow> 'v cache \<Rightarrow> string option \<Rightarrow> 'v cache" where
  "clear matches c pfx =
     (let p = (case pfx of None \<Rightarrow> [] | Some p \<Rightarrow> p);
          c1 = (case redis_client c of
                  Some r \<Rightarrow>
                    if reachable r then
                      (if p \<noteq> []
                       then c\<lparr>redis_client :=
                              Some (r\<lparr>db := (\<lambda>k. if matches (''bookvision:'' @ p @ '':*'') k
                                               then None else db r k)\<rparr>)\<rparr>
                       else c\<lparr>redis_client := Some (r\<lparr>db := Map.empty\<rparr>)\<rparr>)
                    else c
                | None \<Rightarrow> c)
      in if p \<noteq> [] then
           let keys_to_remove = filter (prefix (''bookvision:'' @ p @ '':'')) (map fst (memory_cache c1))
           in c1\<lparr>memory_cache := foldl (\<lambda>d k. AList.delete k d) (memory_cache c1) keys_to_remove\<rparr>
         else c1\<lparr>memory_cache := []\<rparr>)"

subsection \<open>Notions and inputs for the cache's properties\<close>

text \<open>A \<open>set\<close> call ends in the memory cache when no Redis write succeeds.\<close>

definition uses_fallback :: "'v cache \<Rightarrow> int option \<Rightarrow> bool" where
  "uses_fallback c ttl \<longleftrightarrow>
     (case redis_client c of
        None \<Rightarrow> True
      | Some r \<Rightarrow> \<not> (reachable r \<and>
          (case ttl of None \<Rightarrow> CACHE_TTL | Some t \<Rightarrow> if t = 0 then CACHE_TTL else t) > 0))"

text \<open>What every memory cache built by \<open>set\<close> and \<open>clear\<close> satisfies.\<close>

definition memory_ok :: "'v cache \<Rightarrow> bool" where
  "memory_ok c \<longleftrightarrow> distinct (map fst (memory_cache c)) \<and> length (memory_cache c) \<le> 1000"

text \<open>MD5 digests of three short queries, for the examples.\<close>

definition md5_examples :: "string \<Rightarrow> string" where
  "md5_examples q =
     (if q = '''' then ''d41d8cd98f00b204e9800998ecf8427e''
      else if q = ''a'' then ''0cc175b9c0f1b6a831c399e269772661''
      else if q = ''abc'' then ''900150983cd24fb0d6963f7d28e17f72''
      else q)"

text \<open>A glob matcher for the examples: a pattern ending in \<open>*\<close> matches by prefix.\<close>

definition prefix_glob :: "string \<Rightarrow> string \<Rightarrow> bool" where
  "prefix_glob pat k = prefix (butlast pat) k"

text \<open>What the durable tier holds for a key, and whether it can be reached.\<close>

definition durable :: "'v cache \<Rightarrow> string \<Rightarrow> 'v option" where
  "durable c k = (case redis_client c of Some r \<Rightarrow> map_option snd (db r k) | None \<Rightarrow> None)"

definition durable_up :: "'v cache \<Rightarrow> bool" where
  "durable_up c = (case redis_client c of Some r \<Rightarrow> reachable r | None \<Rightarrow> False)"

text \<open>A memory cache at its limit of 1000 entries, with the keys \<open>''''\<close>, \<open>k\<close>, \<open>kk\<close>, ...\<close>

definition full_cache :: "string cache" where
  "full_cache = \<lparr>redis_client = None,
                  memory_cache = map (\<lambda>n. (replicate n CHR ''k'', ''v'')) [0..<1000]\<rparr>"

text \<open>A reachable Redis server holding no key yet.\<close>

definition example_redis :: "string redis" where
  "example_redis = \<lparr>reachable = True, db = Map.empty\<rparr>"

section \<open>text\_utils.py\<close>

definition newline :: char where
  "newline = CHR 0x0A"

text \<open>\<open>text.split("\n\n")\<close>: the pieces between the separators, left to right.\<close>

fun split_paragraphs :: "string \<Rightarrow> string list" where
  "split_paragraphs [] = [[]]"
| "split_paragraphs [a] = [[a]]"
| "split_paragraphs (a # b # s) =
     (if a = newline \<and> b = newline then [] # split_paragraphs s
      else (case split_paragraphs (b # s) of
              p # ps \<Rightarrow> (a # p) # ps
            | [] \<Rightarrow> [[a]]))"

text \<open>
  \<open>re.split(r'([.!?]+\s+)', para)\<close>: the list alternates text and separator and ends
  with a text. A separator starts at a character of \<open>.!?\<close>, takes the whole run of
  them and then the whole run of whitespace, which must not be empty; a run of \<open>.!?\<close>
  that no whitespace follows belongs to the text. \<open>acc\<close> is the text read since the last
  separator.
\<close>

definition is_terminal :: "char \<Rightarrow> bool" where
  "is_terminal c \<longleftrightarrow> c = CHR ''.'' \<or> c = CHR ''!'' \<or> c = CHR ''?''"

function re_split :: "string \<Rightarrow> string \<Rightarrow> string list" where
  "re_split acc [] = [acc]"
| "re_split acc (c # s) =
     (if is_terminal c then
        (if takeWhile isspace (dropWhile is_terminal s) \<noteq> []
         then acc # ((c # takeWhile is_terminal s) @ takeWhile isspace (dropWhile is_terminal s))
                # re_split [] (dropWhile isspace (dropWhile is_terminal s))
         else re_split (acc @ c # takeWhile is_terminal s) (dropWhile is_terminal s))
      else re_split (acc @ [c]) s)"
  by pat_completeness auto
termination
proof (relation "measure (\<lambda>(acc, s). length s)")
  show "wf (measure (\<lambda>(acc, s). length s))" by simp
next
  fix acc :: string and c s
  have "length (dropWhile isspace (dropWhile is_terminal s)) \<le> length s"
    by (rule order_trans [OF length_dropWhile_le length_dropWhile_le])
  then show "(([], dropWhile isspace (dropWhile is_terminal s)), acc, c # s)
      \<in> measure (\<lambda>(acc, s). length s)"
    by simp
next
  fix acc :: string and c s
  show "((acc @ c # takeWhile is_terminal s, dropWhile is_terminal s), acc, c # s)
      \<in> measure (\<lambda>(acc, s). length s)"
    by (simp add: length_dropWhile_le le_imp_less_Suc)
next
  fix acc :: string and c s
  show "((acc @ [c], s), acc, c # s) \<in> measure (\<lambda>(acc, s). length s)"
    by simp
qed

declare re_split.simps [simp del]

text \<open>
  \<open>textwrap.wrap(sentence, max_chars, break_long_words=False, break_on_hyphens=False)\<close>:
  the library raises \<open>ValueError\<close> for a width that is not positive; its line breaking is
  the parameter \<open>wrap\<close>.
\<close>

definition textwrap_wrap :: "(string \<Rightarrow> nat \<Rightarrow> string list) \<Rightarrow> string \<Rightarrow> int \<Rightarrow> error + string list" where
  "textwrap_wrap wrap sentence width =
     (if width \<le> 0 then Inl ValueError else Inr (wrap sentence (nat width)))"

text \<open>
  The loop over the sentences of a long paragraph,
  \<open>for i in range(0, len(sentences), 2)\<close>, on \<open>chunks\<close> and \<open>current_chunk\<close>.
\<close>

function sentence_loop :: "(string \<Rightarrow> nat \<Rightarrow> string list) \<Rightarrow> int \<Rightarrow> string list \<Rightarrow> nat
    \<Rightarrow> string list \<times> string \<Rightarrow> error + string list \<times> string" where
  "sentence_loop wrap max_chars sentences i (chunks, current_chunk) =
     (if i < length sentences then
        let sentence = sentences ! i @ (if i + 1 < length sentences then sentences ! (i + 1) else [])
        in if int (length current_chunk) + int (length sentence) \<le> max_chars
           then sentence_loop wrap max_chars sentences (i + 2) (chunks, current_chunk @ sentence)
           else
             let chunks1 = (if strip current_chunk \<noteq> [] then chunks @ [strip current_chunk]
                            else chunks)
             in if int (length sentence) > max_chars
                then (case textwrap_wrap wrap sentence max_chars of
                        Inl e \<Rightarrow> Inl e
                      | Inr wrapped \<Rightarrow>
                          sentence_loop wrap max_chars sentences (i + 2)
                            (chunks1 @ map strip (filter (\<lambda>w. strip w \<noteq> []) wrapped), []))
                else sentence_loop wrap max_chars sentences (i + 2) (chunks1, sentence)
      else Inr (chunks, current_chunk))"
  by pat_completeness auto
termination
  by (relation "measure (\<lambda>(wrap, max_chars, sentences, i, acc). length sentences - i)") auto

declare sentence_loop.simps [simp del]

text \<open>The loop over the paragraphs, \<open>for para in paragraphs\<close>, on \<open>chunks\<close>.\<close>

fun para_loop :: "(string \<Rightarrow> nat \<Rightarrow> string list) \<Rightarrow> int \<Rightarrow> string list \<Rightarrow> string list
    \<Rightarrow> error + string list" where
  "para_loop wrap max_chars [] chunks = Inr chunks"
| "para_loop wrap max_chars (para # paragraphs) chunks =
     (if int (length para) \<le> max_chars
      then para_loop wrap max_chars paragraphs (if strip para \<noteq> [] then chunks @ [para] else chunks)
      else
        (case sentence_loop wrap max_chars (re_split [] para) 0 (chunks, []) of
           Inl e \<Rightarrow> Inl e
         | Inr (chunks1, current_chunk) \<Rightarrow>
             para_loop wrap max_chars paragraphs
               (if strip current_chunk \<noteq> [] then chunks1 @ [strip current_chunk] else chunks1)))"

text \<open>\<open>_chunk_text\<close>: \<open>Inl\<close> is the exception it raises, \<open>Inr\<close> the list it returns.\<close>

definition chunk_text :: "(string \<Rightarrow> nat \<Rightarrow> string list) \<Rightarrow> string \<Rightarrow> int \<Rightarrow> error + string list" where
  "chunk_text wrap text max_chars =
     (if text = [] \<or> strip text = [] then Inr []
      else
        let paragraphs = map strip (filter (\<lambda>p. strip p \<noteq> []) (split_paragraphs text))
        in case para_loop wrap max_chars paragraphs [] of
             Inl e \<Rightarrow> Inl e
           | Inr chunks \<Rightarrow> Inr (filter (\<lambda>c. length (strip c) \<ge> 50) chunks))"

text \<open>
  \<open>clean_text\<close>. \<open>isword\<close> is the class \<open>\w\<close> on the code points up to U+00FF:
  letters, digits and the underscore.
\<close>

definition isword :: "char \<Rightarrow> bool" where
  "isword c \<longleftrightarrow>
     (let n = (of_char c :: nat)
      in (48 \<le> n \<and> n \<le> 57) \<or> (65 \<le> n \<and> n \<le> 90) \<or> n = 95 \<or> (97 \<le> n \<and> n \<le> 122) \<or>
         n \<in> {170, 178, 179, 181, 185, 186, 188, 189, 190} \<or>
         (192 \<le> n \<and> n \<le> 214) \<or> (216 \<le> n \<and> n \<le> 246) \<or> (248 \<le> n \<and> n \<le> 255))"

text \<open>\<open>re.sub(r"\n{3,}", "\n\n", text)\<close>; \<open>n\<close> counts the newlines of the run being read.\<close>

fun sub_newlines :: "nat \<Rightarrow> string \<Rightarrow> string" where
  "sub_newlines n [] = replicate (min n 2) newline"
| "sub_newlines n (c # s) =
     (if c = newline then sub_newlines (Suc n) s
      else replicate (min n 2) newline @ c # sub_newlines 0 s)"

text \<open>\<open>re.sub(r"(\w)-\n(\w)", r"\1\2", text)\<close>\<close>

fun join_hyphenated :: "string \<Rightarrow> string" where
  "join_hyphenated (a # b # c # d # s) =
     (if isword a \<and> b = CHR ''-'' \<and> c = newline \<and> isword d then a # d # join_hyphenated s
      else a # join_hyphenated (b # c # d # s))"
| "join_hyphenated s = s"

text \<open>\<open>re.sub(r" +", " ", text)\<close>\<close>

fun sub_spaces :: "string \<Rightarrow> string" where
  "sub_spaces (a # b # s) =
     (if a = CHR '' '' \<and> b = CHR '' '' then sub_spaces (b # s) else a # sub_spaces (b # s))"
| "sub_spaces s = s"

definition clean_text :: "string \<Rightarrow> string" where
  "clean_text text =
     strip (sub_spaces (join_hyphenated (sub_newlines 0
       (map (\<lambda>c. if c = CHR 0x0D then newline else c) text))))"

text \<open>
  \<open>extract_and_chunk_pdf\<close>. A page of the document is the pair of what
  \<open>page.get_text("text")\<close> returns and what the OCR of the page returns; the document
  is \<open>None\<close> when it cannot be opened. The loops carry the progress log. The function's
  full text and page images are left out.
\<close>

type_synonym pdf_page = "string \<times> string"

fun extract_pages :: "bool \<Rightarrow> nat \<Rightarrow> pdf_page list \<Rightarrow> nat \<Rightarrow> int list \<times> (string \<times> nat) list
    \<Rightarrow> int list \<times> (string \<times> nat) list" where
  "extract_pages cb total_pages [] pno (plog, pages_text) = (plog, pages_text)"
| "extract_pages cb total_pages ((text, text_ocr) # doc) pno (plog, pages_text) =
     (let page_progress = 10 + \<lfloor>(real pno / real total_pages) * 30\<rfloor>;
          plog1 = notify cb plog page_progress
      in if text = [] \<or> strip text = []
         then extract_pages cb total_pages doc (pno + 1)
                (notify cb plog1 page_progress, pages_text @ [(text_ocr, pno + 1)])
         else extract_pages cb total_pages doc (pno + 1) (plog1, pages_text @ [(text, pno + 1)]))"

fun chunk_pages :: "(string \<Rightarrow> nat \<Rightarrow> string list) \<Rightarrow> bool \<Rightarrow> int \<Rightarrow> nat \<Rightarrow> (string \<times> nat) list
    \<Rightarrow> nat \<Rightarrow> int list \<times> (string \<times> nat) list \<Rightarrow> int list \<times> (error + (string \<times> nat) list)" where
  "chunk_pages wrap cb max_chars n [] idx (plog, all_chunks) = (plog, Inr all_chunks)"
| "chunk_pages wrap cb max_chars n ((page_text, page_num) # pages_text) idx (plog, all_chunks) =
     (let cleaned = clean_text page_text
      in case (if cleaned \<noteq> [] then chunk_text wrap cleaned max_chars else Inr []) of
           Inl e \<Rightarrow> (plog, Inl e)
         | Inr chunks \<Rightarrow>
             chunk_pages wrap cb max_chars n pages_text (idx + 1)
               (if (idx + 1) mod 10 = 0
                then notify cb plog (40 + \<lfloor>real (idx + 1) / real n * 8\<rfloor>)
                else plog,
                all_chunks @ map (\<lambda>chunk. (chunk, page_num)) chunks))"

definition extract_and_chunk_pdf :: "(string \<Rightarrow> nat \<Rightarrow> string list) \<Rightarrow> bool \<Rightarrow> pdf_page list option
    \<Rightarrow> int \<Rightarrow> int list \<Rightarrow> int list \<times> (string \<times> nat) list" where
  "extract_and_chunk_pdf wrap cb doc max_chars plog =
     (case doc of
        None \<Rightarrow> (plog, [])
      | Some pages \<Rightarrow>
          let (plog1, pages_text) = extract_pages cb (length pages) pages 0 (plog, []);
              plog2 = notify cb plog1 40;
              (plog3, r) = chunk_pages wrap cb max_chars (length pages_text) pages_text 0 (plog2, [])
          in (case r of Inl e \<Rightarrow> (plog3, []) | Inr all_chunks \<Rightarrow> (plog3, all_chunks)))"

section \<open>ingest.py\<close>

text \<open>
  \<open>ingest_pdf\<close> on the global store. \<open>book_id\<close> is the fresh UUID, \<open>stem\<close> and
  \<open>name\<close> are \<open>Path(path).stem\<close> and \<open>Path(path).name\<close>. The result is the
  exception raised or the book id returned, with the state the call leaves. Writing the
  page images to disk is left out.
\<close>

definition ingest_pdf :: "(string \<Rightarrow> nat \<Rightarrow> string list) \<Rightarrow> (string \<Rightarrow> vec) \<Rightarrow> bool \<Rightarrow> embed_state
    \<Rightarrow> pdf_page list option \<Rightarrow> string \<Rightarrow> string option \<Rightarrow> string \<Rightarrow> string
    \<Rightarrow> (error + string) \<times> embed_state" where
  "ingest_pdf wrap enc cb s doc book_id book_title stem name =
     (let plog0 = notify cb (progress s) 10;
          (plog1, chunks_with_pages) = extract_and_chunk_pdf wrap cb doc 800 plog0
      in if chunks_with_pages = [] then (Inl ValueError, s\<lparr>progress := plog1\<rparr>)
         else
           let plog2 = notify cb plog1 50;
               title = (case book_title of Some t \<Rightarrow> if t = [] then stem else t | None \<Rightarrow> stem);
               metadata_list =
                 map (\<lambda>(chunk, page_num).
                        [''book_id'' \<mapsto> PyStr book_id, ''book_title'' \<mapsto> PyStr title,
                         ''page'' \<mapsto> PyInt (int page_num), ''source'' \<mapsto> PyStr name])
                   chunks_with_pages;
               chunks_list = map fst chunks_with_pages;
               plog3 = notify cb plog2 60;
               (r, s1) = add_batch enc cb (s\<lparr>progress := plog3\<rparr>) chunks_list metadata_list
           in (case r of
                 Some e \<Rightarrow> (Inl e, s1)
               | None \<Rightarrow>
                   (Inr book_id,
                    s1\<lparr>progress := notify cb (notify cb (notify cb (progress s1) 90) 90) 95\<rparr>)))"

subsection \<open>Notions and inputs for the properties of chunking and ingestion\<close>

text \<open>A log of percentages that never decreases and stays between two bounds.\<close>

definition rising :: "int \<Rightarrow> int \<Rightarrow> int list \<Rightarrow> bool" where
  "rising lo hi ps \<longleftrightarrow> sorted ps \<and> list_all (\<lambda>p. lo \<le> p \<and> p \<le> hi) ps"

text \<open>A line breaker for the examples: every sentence on one line.\<close>

definition example_wrap :: "string \<Rightarrow> nat \<Rightarrow> string list" where
  "example_wrap sentence width = [sentence]"

text \<open>A page of 60 letters, which makes one chunk.\<close>

definition example_page :: pdf_page where
  "example_page = (replicate 60 CHR ''a'', [])"

section \<open>Properties of the embedding store\<close>

subsection \<open>Loading\<close>


lemma total_chunks_stored: "total_chunks s = length (stored_vectors s)"
  by (simp add: total_chunks_def stored_vectors_def ntotal_def split: option.splits)


subsection \<open>What one call appends\<close>

text \<open>
  The batches of the embedding loop, put together, are the embeddings of the valid chunks
  in their order; the vectorised normalisation is \<open>_normalize\<close> on every row. So a
  call of \<open>add\<close> or \<open>add_batch\<close> either leaves both arrays as they are or appends
  to both, entry by entry.
\<close>

lemma linalg_norm_nonneg: "0 \<le> linalg_norm v"
proof -
  have "0 \<le> (\<Sum>x\<leftarrow>v. x * x)" by (induction v) auto
  then show ?thesis by (simp add: linalg_norm_def)
qed

lemma normalize_rows_eq: "normalize_rows vs = map normalize_vec vs"
proof -
  have "(let n = linalg_norm v; n' = (if n = 0 then 1 else n) in map (\<lambda>x. x / n') v) = normalize_vec v" for v
    using linalg_norm_nonneg [of v] by (auto simp: normalize_vec_def Let_def)
  then show ?thesis by (simp add: normalize_rows_def)
qed

lemma embed_loop_concat:
  "concat (snd (embed_loop enc cb vc i (lg, acc))) = concat acc @ map enc (drop i vc)"
proof (induction enc cb vc i "(lg, acc)" arbitrary: lg acc rule: embed_loop.induct)
  case (1 enc cb vc i lg acc)
  show ?case
  proof (cases "i < length vc")
    case True
    have d: "take 100 (drop i vc) @ drop (i + 100) vc = drop i vc"
      by (metis add.commute append_take_drop_id drop_drop)
    have "map enc (take 100 (drop i vc)) @ map enc (drop (i + 100) vc) = map enc (drop i vc)"
      by (simp only: map_append [symmetric] d)
    with True 1 show ?thesis
      by (subst embed_loop.simps) (simp add: Let_def)
  next
    case False
    then show ?thesis by (subst embed_loop.simps) simp
  qed
qed

lemma enumerate_chunks:
  "map (\<lambda>(i, m). m(''chunk_text'' \<mapsto> PyStr (map fst valid ! i))) (enumerate 0 (map snd valid))
     = map (\<lambda>(c, m). m(''chunk_text'' \<mapsto> PyStr c)) valid"
  by (rule nth_equalityI) (auto simp: nth_enumerate_eq split: prod.splits)

lemma save_fields [simp]:
  "index (save s) = index s" "meta (save s) = meta s" "progress (save s) = progress s"
  "store_dim (save s) = store_dim s"
  by (auto simp: save_def Let_def split: option.splits)

lemma stored_vectors_save [simp]: "stored_vectors (save s) = stored_vectors s"
  by (simp add: stored_vectors_def)

lemma embed_loop_result:
  "embed_loop enc cb vc 0 (lg, []) = (lg', ae) \<Longrightarrow> concat ae = map enc vc"
  using embed_loop_concat [of enc cb vc 0 lg "[]"] by simp

lemma add_batch_effect:
  "(stored_vectors (snd (add_batch enc cb s chunks mds)) = stored_vectors s \<and>
    meta (snd (add_batch enc cb s chunks mds)) = meta s) \<or>
   (fst (add_batch enc cb s chunks mds) = None \<and>
    stored_vectors (snd (add_batch enc cb s chunks mds)) =
      stored_vectors s @ map (\<lambda>(c, m). normalize_vec (enc c)) (valid_pairs chunks mds) \<and>
    meta (snd (add_batch enc cb s chunks mds)) =
      meta s @ map (\<lambda>(c, m). m(''chunk_text'' \<mapsto> PyStr c)) (valid_pairs chunks mds))"
proof -
  let ?valid = "filter (\<lambda>(chunk, m). chunk \<noteq> [] \<and> strip chunk \<noteq> []) (zip chunks mds)"
  obtain lg ae where el: "embed_loop enc cb (map fst ?valid) 0
      (notify cb (progress s) 65, []) = (lg, ae)"
    by (cases "embed_loop enc cb (map fst ?valid) 0 (notify cb (progress s) 65, [])")
  have c: "concat ae = map enc (map fst ?valid)"
    using embed_loop_result [OF el] .
  have m: "map normalize_vec (map enc (map fst ?valid)) = map (\<lambda>(c, m). normalize_vec (enc c)) ?valid"
    by (simp add: case_prod_beta)
  show ?thesis
    unfolding add_batch_def Let_def el
    by (auto simp: c m normalize_rows_eq enumerate_chunks valid_pairs_def index_add_def
        stored_vectors_def IndexFlatIP_def split: option.splits)
qed

lemma add_effect:
  "(stored_vectors (snd (add enc s c md)) = stored_vectors s \<and> meta (snd (add enc s c md)) = meta s) \<or>
   (fst (add enc s c md) = None \<and>
    stored_vectors (snd (add enc s c md)) = stored_vectors s @ [normalize_vec (enc c)] \<and>
    meta (snd (add enc s c md)) = meta s @ [md(''chunk_text'' \<mapsto> PyStr c)])"
  by (auto simp: add_def Let_def index_add_def stored_vectors_def IndexFlatIP_def split: option.splits)

lemma exec_op_effect:
  "\<exists>new. list_all2 (\<lambda>v m. \<exists>c. m ''chunk_text'' = Some (PyStr c) \<and> v = normalize_vec (enc c))
            (map fst new) (map snd new) \<and>
          stored_vectors (exec_op enc s op) = stored_vectors s @ map fst new \<and>
          meta (exec_op enc s op) = meta s @ map snd new"
proof (cases op)
  case (Add c md)
  from add_effect [of enc s c md] show ?thesis
  proof
    assume "stored_vectors (snd (add enc s c md)) = stored_vectors s \<and> meta (snd (add enc s c md)) = meta s"
    then show ?thesis using Add by (intro exI [of _ "[]"]) simp
  next
    assume "fst (add enc s c md) = None \<and>
      stored_vectors (snd (add enc s c md)) = stored_vectors s @ [normalize_vec (enc c)] \<and>
      meta (snd (add enc s c md)) = meta s @ [md(''chunk_text'' \<mapsto> PyStr c)]"
    then show ?thesis using Add
      by (intro exI [of _ "[(normalize_vec (enc c), md(''chunk_text'' \<mapsto> PyStr c))]"]) simp
  qed
next
  case (AddBatch chunks mds cb)
  let ?r = "add_batch enc cb s chunks mds"
  from add_batch_effect [of enc cb s chunks mds] show ?thesis
  proof
    assume "stored_vectors (snd ?r) = stored_vectors s \<and> meta (snd ?r) = meta s"
    then show ?thesis using AddBatch by (intro exI [of _ "[]"]) simp
  next
    assume a: "fst ?r = None \<and>
      stored_vectors (snd ?r) =
        stored_vectors s @ map (\<lambda>(c, m). normalize_vec (enc c)) (valid_pairs chunks mds) \<and>
      meta (snd ?r) = meta s @ map (\<lambda>(c, m). m(''chunk_text'' \<mapsto> PyStr c)) (valid_pairs chunks mds)"
    let ?new = "map (\<lambda>(c, m). (normalize_vec (enc c), m(''chunk_text'' \<mapsto> PyStr c))) (valid_pairs chunks mds)"
    have "list_all2 (\<lambda>v m. \<exists>c. m ''chunk_text'' = Some (PyStr c) \<and> v = normalize_vec (enc c))
            (map fst ?new) (map snd ?new)"
      by (auto simp: list_all2_map1 list_all2_map2 intro!: list_all2_same [THEN iffD2])
    moreover have "map fst ?new = map (\<lambda>(c, m). normalize_vec (enc c)) (valid_pairs chunks mds)"
      by (simp add: case_prod_beta)
    moreover have "map snd ?new = map (\<lambda>(c, m). m(''chunk_text'' \<mapsto> PyStr c)) (valid_pairs chunks mds)"
      by (simp add: case_prod_beta)
    ultimately show ?thesis using a AddBatch
      by (intro exI [of _ ?new]) simp
  qed
qed

subsection \<open>Sequences of calls\<close>

lemma exec_op_aligned: "aligned enc s \<Longrightarrow> aligned enc (exec_op enc s op)"
  using exec_op_effect [of enc s op] by (auto simp: aligned_def intro: list_all2_appendI)

lemma exec_op_prefix:
  "prefix (stored_vectors s) (stored_vectors (exec_op enc s op)) \<and> prefix (meta s) (meta (exec_op enc s op))"
  using exec_op_effect [of enc s op] by auto

lemma run_ops_aligned: "aligned enc s \<Longrightarrow> aligned enc (run_ops enc s ops)"
  unfolding run_ops_def by (induction ops arbitrary: s) (auto simp: exec_op_aligned)

lemma run_ops_prefix:
  "prefix (stored_vectors s) (stored_vectors (run_ops enc s ops)) \<and> prefix (meta s) (meta (run_ops enc s ops))"
  unfolding run_ops_def
proof (induction ops arbitrary: s)
  case Nil
  show ?case by simp
next
  case (Cons op ops)
  from exec_op_prefix [of s enc op] Cons [of "exec_op enc s op"] show ?case
    by (auto intro: prefix_order.trans)
qed

lemma run_ops_append: "run_ops enc s (ops @ later) = run_ops enc (run_ops enc s ops) later"
  by (simp add: run_ops_def)

lemma init_store_empty:
  "stored_vectors (init_store n Missing Missing) = [] \<and> meta (init_store n Missing Missing) = []"
  by (simp add: init_store_def load_def load_try_def stored_vectors_def IndexFlatIP_def ntotal_def)

text \<open>
  Claim C1. Start from the empty store and run any sequence of \<open>add\<close> and
  \<open>add_batch\<close> calls. After the sequence (so after each of its calls) the index holds as
  many vectors as there are metadata records; vector and record at the same position were
  appended together (the record holds the chunk text whose normalised embedding the vector
  is); and whatever calls follow, the vectors and the records already stored stay where
  they are, as a prefix of the later arrays.
\<close>

theorem store_arrays_in_lockstep:
  "total_chunks (run_ops enc (init_store n Missing Missing) ops)
     = length (meta (run_ops enc (init_store n Missing Missing) ops)) \<and>
   list_all2 (\<lambda>v m. \<exists>c. m ''chunk_text'' = Some (PyStr c) \<and> v = normalize_vec (enc c))
     (stored_vectors (run_ops enc (init_store n Missing Missing) ops))
     (meta (run_ops enc (init_store n Missing Missing) ops)) \<and>
   prefix (stored_vectors (run_ops enc (init_store n Missing Missing) ops))
     (stored_vectors (run_ops enc (init_store n Missing Missing) (ops @ later))) \<and>
   prefix (meta (run_ops enc (init_store n Missing Missing) ops))
     (meta (run_ops enc (init_store n Missing Missing) (ops @ later)))"
proof -
  let ?s0 = "init_store n Missing Missing"
  have "aligned enc ?s0"
    using init_store_empty [of n] by (simp add: aligned_def)
  then have al: "aligned enc (run_ops enc ?s0 ops)"
    by (rule run_ops_aligned)
  then have "length (stored_vectors (run_ops enc ?s0 ops)) = length (meta (run_ops enc ?s0 ops))"
    by (simp add: aligned_def list_all2_lengthD)
  with al run_ops_prefix [of "run_ops enc ?s0 ops" enc later] show ?thesis
    by (simp add: total_chunks_stored run_ops_append aligned_def)
qed

lemma example_run_meta:
  "map (\<lambda>m. m ''chunk_text'')
     (meta (run_ops example_encoder (init_store 2 Missing Missing)
        [Add ''hello'' [''page'' \<mapsto> PyInt 1],
         AddBatch [''alpha'', ''  '', ''beta'']
           [[''page'' \<mapsto> PyInt 2], [''page'' \<mapsto> PyInt 3], [''page'' \<mapsto> PyInt 4]] False]))
   = [Some (PyStr ''hello''), Some (PyStr ''alpha''), Some (PyStr ''beta'')]"
  by (simp add: run_ops_def add_def add_batch_def init_store_def load_def load_try_def
      IndexFlatIP_def ntotal_def index_add_def strip_def isspace_def embed_loop.simps
      normalize_rows_def normalize_vec_def example_encoder_def notify_def Let_def)

text \<open>
  One \<open>add\<close> and one \<open>add_batch\<close> of three chunks, one of them blank: three records
  and three vectors.
\<close>

theorem store_arrays_in_lockstep_witness:
  "total_chunks (run_ops example_encoder (init_store 2 Missing Missing)
        [Add ''hello'' [''page'' \<mapsto> PyInt 1],
         AddBatch [''alpha'', ''  '', ''beta'']
           [[''page'' \<mapsto> PyInt 2], [''page'' \<mapsto> PyInt 3], [''page'' \<mapsto> PyInt 4]] False]) = 3"
proof -
  let ?s = "run_ops example_encoder (init_store 2 Missing Missing)
        [Add ''hello'' [''page'' \<mapsto> PyInt 1],
         AddBatch [''alpha'', ''  '', ''beta'']
           [[''page'' \<mapsto> PyInt 2], [''page'' \<mapsto> PyInt 3], [''page'' \<mapsto> PyInt 4]] False]"
  have "length (map (\<lambda>m. m ''chunk_text'') (meta ?s)) = 3"
    by (simp only: example_run_meta) simp
  then have "length (meta ?s) = 3" by simp
  with store_arrays_in_lockstep [of example_encoder 2 "[Add ''hello'' [''page'' \<mapsto> PyInt 1],
         AddBatch [''alpha'', ''  '', ''beta'']
           [[''page'' \<mapsto> PyInt 2], [''page'' \<mapsto> PyInt 3], [''page'' \<mapsto> PyInt 4]] False]"]
  show ?thesis by simp
qed

subsection \<open>Rejected batches, repaired loads, blank queries\<close>

lemma strip_Nil_iff: "strip q = [] \<longleftrightarrow> list_all isspace q"
proof
  assume "list_all isspace q"
  then have "dropWhile isspace q = []"
    by (induction q) auto
  then show "strip q = []"
    unfolding strip_def by (simp only: rev.simps dropWhile.simps)
next
  assume "strip q = []"
  then have "dropWhile isspace (rev (dropWhile isspace q)) = []"
    by (simp add: strip_def)
  then have a: "\<forall>x\<in>set (dropWhile isspace q). isspace x"
    by (metis dropWhile_eq_Nil_conv set_rev)
  have "dropWhile isspace q = []"
  proof (rule ccontr)
    assume n: "dropWhile isspace q \<noteq> []"
    then have "\<not> isspace (hd (dropWhile isspace q))" by (rule hd_dropWhile)
    with a n show False by simp
  qed
  then show "list_all isspace q"
    by (metis dropWhile_eq_Nil_conv list_all_iff)
qed

lemma strip_blank: "list_all isspace q \<Longrightarrow> strip q = []"
  by (simp add: strip_Nil_iff)


lemma example_store_eq:
  "example_store = \<lparr>store_dim = 2, index = Some \<lparr>dimension = 2, vectors = []\<rparr>, meta = [],
     VEC_FILE = Missing, META_FILE = Missing, progress = []\<rparr>"
  by (simp add: example_store_def init_store_def load_def load_try_def IndexFlatIP_def ntotal_def)





text \<open>
  Claim C10. A query that is empty or consists of whitespace only makes \<open>search\<close> return
  the empty list, and the state (index and metadata included) is the one it was called in.
\<close>

theorem search_blank_query:
  "list_all isspace query \<Longrightarrow> search enc isearch s query top_k = ([], s)"
  by (auto simp: search_def strip_blank split: option.splits)

lemma example_store1_size: "total_chunks example_store1 = 1"
  by (simp add: example_store1_def add_def strip_def isspace_def example_store_eq index_add_def
      normalize_vec_def Let_def example_encoder_def total_chunks_def ntotal_def)

text \<open>
  A one-space query on a store holding one vector.
\<close>

theorem search_blank_query_witness:
  "list_all isspace '' ''  \<and> total_chunks example_store1 = 1 \<and>
   search example_encoder (\<lambda>ix q k. [(1, 0)]) example_store1 '' '' 5 = ([], example_store1)"
proof -
  have b: "list_all isspace '' ''" by (simp add: isspace_def)
  show ?thesis
    using b search_blank_query [OF b, where enc = example_encoder and isearch = "\<lambda>ix q k. [(1, 0)]"
        and s = example_store1 and top_k = 5]
      example_store1_size by simp
qed

subsection \<open>Normalisation in exact arithmetic\<close>

text \<open>
  On vectors of reals, \<open>_normalize\<close> leaves the zero vector as it is, gives every other
  vector the norm 1, and applying it twice is applying it once. These are facts about
  exact arithmetic; they say nothing about the rounding of float32 values.
\<close>

lemma sum_squares_zero: "(\<Sum>x\<leftarrow>v. x * x) = (0::real) \<longleftrightarrow> list_all (\<lambda>x. x = 0) v"
proof (induction v)
  case Nil
  show ?case by simp
next
  case (Cons a v)
  have "0 \<le> (\<Sum>x\<leftarrow>v. x * x)" by (induction v) auto
  with Cons show ?case by (auto simp: add_nonneg_eq_0_iff)
qed

lemma linalg_norm_zero_iff: "linalg_norm v = 0 \<longleftrightarrow> list_all (\<lambda>x. x = 0) v"
  by (simp add: linalg_norm_def sum_squares_zero)

lemma linalg_norm_scaled: "0 < n \<Longrightarrow> linalg_norm (map (\<lambda>x. x / n) v) = linalg_norm v / n"
proof -
  assume n: "0 < n"
  have "(\<Sum>x\<leftarrow>map (\<lambda>x. x / n) v. x * x) = (\<Sum>x\<leftarrow>v. x * x) / (n * n)"
    by (induction v) (auto simp: add_divide_distrib)
  with n show ?thesis
    by (simp add: linalg_norm_def real_sqrt_divide real_sqrt_mult)
qed

lemma normalize_vec_zero: "list_all (\<lambda>x. x = 0) v \<Longrightarrow> normalize_vec v = v"
  by (simp add: normalize_vec_def linalg_norm_zero_iff [symmetric])

lemma normalize_vec_unit: "\<not> list_all (\<lambda>x. x = 0) v \<Longrightarrow> linalg_norm (normalize_vec v) = 1"
proof -
  assume "\<not> list_all (\<lambda>x. x = 0) v"
  then have "linalg_norm v \<noteq> 0" by (simp add: linalg_norm_zero_iff)
  with linalg_norm_nonneg [of v] have p: "0 < linalg_norm v" by simp
  then show ?thesis by (simp add: normalize_vec_def linalg_norm_scaled)
qed

lemma normalize_vec_idem: "normalize_vec (normalize_vec v) = normalize_vec v"
proof (cases "list_all (\<lambda>x. x = 0) v")
  case True
  then show ?thesis by (simp add: normalize_vec_zero)
next
  case False
  then have "linalg_norm (normalize_vec v) = 1" by (rule normalize_vec_unit)
  then show ?thesis by (subst normalize_vec_def) simp
qed

subsection \<open>What \<open>search\<close> does around the index library's search\<close>

text \<open>
  The order and the scores of the results are those of the pairs the library returns;
  \<open>search\<close> only drops labels without a metadata record.
\<close>

lemma search_empty_index: "total_chunks s = 0 \<Longrightarrow> search enc isearch s query top_k = ([], s)"
  by (auto simp: search_def total_chunks_def split: option.splits)

lemma search_leaves_state: "snd (search enc isearch s query top_k) = s"
  by (auto simp: search_def Let_def split: option.splits sum.splits)

lemma length_collect_results: "length (collect_results ms found) \<le> length found"
  by (induction ms found rule: collect_results.induct) auto

lemma collect_results_all:
  "list_all (\<lambda>(dst, idx). 0 \<le> idx \<and> idx < int (length ms)) found \<Longrightarrow>
     collect_results ms found = map (\<lambda>(dst, idx). (ms ! nat idx)(''score'' \<mapsto> PyFloat dst)) found"
  by (induction ms found rule: collect_results.induct) auto


section \<open>Properties of the cache\<close>

subsection \<open>The memory dict\<close>

text \<open>
  Deleting the first \<open>n\<close> keys of a dict drops its first \<open>n\<close> entries; deleting the
  keys that satisfy a test keeps the other entries, in their order.
\<close>

lemma delete_absent: "k \<notin> fst ` set d \<Longrightarrow> AList.delete k d = d"
  by (induction d) auto

lemma evict_oldest:
  "distinct (map fst d) \<Longrightarrow> foldl (\<lambda>d k. AList.delete k d) d (take n (map fst d)) = drop n d"
proof (induction d arbitrary: n)
  case Nil
  show ?case by simp
next
  case (Cons kv d)
  obtain k v where kv: "kv = (k, v)" by (cases kv)
  show ?case
  proof (cases n)
    case 0
    then show ?thesis by simp
  next
    case (Suc n')
    from Cons.prems kv have nk: "k \<notin> fst ` set d" and dd: "distinct (map fst d)" by auto
    from Suc kv show ?thesis
      by (simp add: delete_absent [OF nk] Cons.IH [OF dd])
  qed
qed

lemma delete_all:
  "foldl (\<lambda>d k. AList.delete k d) d ks = filter (\<lambda>(k, v). k \<notin> set ks) d"
proof (induction ks arbitrary: d)
  case Nil
  show ?case by simp
next
  case (Cons k ks)
  have "foldl (\<lambda>d k. AList.delete k d) d (k # ks)
      = filter (\<lambda>(k', v). k' \<notin> set ks) (AList.delete k d)"
    by (simp only: foldl_Cons Cons.IH)
  also have "\<dots> = filter (\<lambda>(k', v). k' \<notin> set (k # ks)) d"
    by (simp add: AList.delete_eq) (rule filter_cong, auto)
  finally show ?case .
qed

lemma delete_matching:
  "foldl (\<lambda>d k. AList.delete k d) d (filter P (map fst d)) = filter (\<lambda>(k, v). \<not> P k) d"
  unfolding delete_all by (rule filter_cong) (auto simp: image_iff)

lemma update_fresh: "k \<notin> fst ` set d \<Longrightarrow> AList.update k v d = d @ [(k, v)]"
  by (induction d) auto

lemma length_update_present: "k \<in> fst ` set d \<Longrightarrow> length (AList.update k v d) = length d"
  by (induction d) auto

subsection \<open>What \<open>set\<close> and \<open>clear\<close> do to the two tiers\<close>

lemma memory_set_value:
  assumes "uses_fallback c ttl"
  shows "memory_cache (set_value h c pfx q v ttl) =
     (let mc = AList.update (make_key h pfx q) v (memory_cache c)
      in if length mc > 1000 then foldl (\<lambda>d k. AList.delete k d) mc (take 100 (map fst mc)) else mc)"
    and "redis_client (set_value h c pfx q v ttl) = redis_client c"
  using assms by (auto simp: set_value_def uses_fallback_def Let_def split: option.splits)

lemma memory_set_value_redis:
  "\<not> uses_fallback c ttl \<Longrightarrow> memory_cache (set_value h c pfx q v ttl) = memory_cache c"
  by (auto simp: set_value_def uses_fallback_def Let_def split: option.splits)

lemma fallback_result:
  assumes ok: "memory_ok c" and fb: "uses_fallback c ttl"
  shows "memory_cache (set_value h c pfx q v ttl) =
     (if make_key h pfx q \<notin> fst ` set (memory_cache c) \<and> length (memory_cache c) = 1000
      then drop 100 (memory_cache c @ [(make_key h pfx q, v)])
      else AList.update (make_key h pfx q) v (memory_cache c))"
proof (cases "make_key h pfx q \<in> fst ` set (memory_cache c)")
  case True
  with ok have "length (AList.update (make_key h pfx q) v (memory_cache c)) \<le> 1000"
    by (simp add: length_update_present memory_ok_def)
  with True show ?thesis by (simp add: memory_set_value(1) [OF fb] Let_def)
next
  case False
  let ?mc = "memory_cache c @ [(make_key h pfx q, v)]"
  from False have u: "AList.update (make_key h pfx q) v (memory_cache c) = ?mc"
    by (rule update_fresh)
  from ok False have d: "distinct (map fst ?mc)" by (auto simp: memory_ok_def)
  have e: "foldl (\<lambda>d k. AList.delete k d) ?mc (take 100 (map fst ?mc)) = drop 100 ?mc"
    using d by (rule evict_oldest)
  from ok have "length (memory_cache c) \<le> 1000" by (simp add: memory_ok_def)
  with False show ?thesis
    unfolding memory_set_value(1) [OF fb] Let_def u e by auto
qed

lemma set_value_ok: "memory_ok c \<Longrightarrow> memory_ok (set_value h c pfx q v ttl)"
proof (cases "uses_fallback c ttl")
  case False
  assume "memory_ok c"
  with False show ?thesis by (simp add: memory_ok_def memory_set_value_redis)
next
  case True
  assume ok: "memory_ok c"
  show ?thesis
  proof (cases "make_key h pfx q \<notin> fst ` set (memory_cache c) \<and> length (memory_cache c) = 1000")
    case True
    with ok show ?thesis
      unfolding memory_ok_def fallback_result [OF ok \<open>uses_fallback c ttl\<close>]
      by (auto simp: distinct_drop simp flip: drop_map dest: in_set_dropD)
  next
    case False
    have "length (AList.update (make_key h pfx q) v (memory_cache c)) \<le> 1000"
    proof (cases "make_key h pfx q \<in> fst ` set (memory_cache c)")
      case True
      with ok show ?thesis by (simp add: length_update_present memory_ok_def)
    next
      case nin: False
      with False ok have "length (memory_cache c) < 1000" by (simp add: memory_ok_def)
      with nin show ?thesis by (simp add: update_fresh)
    qed
    with False ok show ?thesis
      unfolding memory_ok_def fallback_result [OF ok \<open>uses_fallback c ttl\<close>]
      by (auto simp: distinct_update)
  qed
qed

lemma new_cache_ok: "memory_ok (new_cache r)"
  by (simp add: memory_ok_def new_cache_def)

lemma memory_clear:
  "memory_cache (clear m c pfx) =
     (case pfx of
        None \<Rightarrow> []
      | Some p \<Rightarrow> if p = [] then []
                  else filter (\<lambda>(k, v). \<not> prefix (''bookvision:'' @ p @ '':'') k) (memory_cache c))"
  by (auto simp: clear_def Let_def delete_matching split: option.splits)

lemma clear_ok: "memory_ok c \<Longrightarrow> memory_ok (clear m c pfx)"
  unfolding memory_ok_def memory_clear
  by (auto simp: distinct_map_filter intro: le_trans [OF length_filter_le] split: option.splits)

subsection \<open>Keys of different namespaces\<close>

lemma namespace_prefix:
  "CHR '':'' \<notin> set a \<Longrightarrow> CHR '':'' \<notin> set b \<Longrightarrow> prefix (a @ CHR '':'' # r1) (b @ CHR '':'' # r2) \<Longrightarrow> a = b"
proof (induction a arbitrary: b)
  case Nil
  then show ?case by (cases b) auto
next
  case (Cons x a)
  then show ?case by (cases b) auto
qed

lemma other_namespace_key:
  assumes "CHR '':'' \<notin> set pfx" "CHR '':'' \<notin> set pfx'" "pfx' \<noteq> pfx"
  shows "\<not> prefix (''bookvision:'' @ pfx @ '':'') (make_key h pfx' q)"
proof
  assume "prefix (''bookvision:'' @ pfx @ '':'') (make_key h pfx' q)"
  then have "prefix (pfx @ CHR '':'' # []) (pfx' @ CHR '':'' # h q)"
    by (simp add: make_key_def)
  with assms show False using namespace_prefix by blast
qed

lemma map_of_filter_key:
  "\<not> P k \<Longrightarrow> map_of (filter (\<lambda>(k, v). \<not> P k) d) k = map_of d k"
  by (induction d) auto

lemma durable_clear:
  "pfx \<noteq> [] \<Longrightarrow> durable_up c \<Longrightarrow>
     durable (clear m c (Some pfx)) k =
       (if m (''bookvision:'' @ pfx @ '':*'') k then None else durable c k)"
  by (auto simp: clear_def durable_def durable_up_def Let_def split: option.splits)

lemma durable_up_clear [simp]: "durable_up (clear m c pfx) = durable_up c"
  by (auto simp: clear_def durable_up_def Let_def split: option.splits)

lemma get_tiers:
  "get h c pfx q =
     (case (if durable_up c then durable c (make_key h pfx q) else None) of
        Some v \<Rightarrow> Some v
      | None \<Rightarrow> map_of (memory_cache c) (make_key h pfx q))"
  by (auto simp: get_def durable_def durable_up_def Let_def split: option.splits)

lemma get_after_clear:
  assumes "pfx \<noteq> []"
    and "\<not> prefix (''bookvision:'' @ pfx @ '':'') (make_key h pfx' q)"
    and "\<not> durable_up c \<or> \<not> m (''bookvision:'' @ pfx @ '':*'') (make_key h pfx' q)"
  shows "get h (clear m c (Some pfx)) pfx' q = get h c pfx' q"
proof -
  have mem: "map_of (memory_cache (clear m c (Some pfx))) (make_key h pfx' q)
      = map_of (memory_cache c) (make_key h pfx' q)"
    using assms(1,2) by (simp add: memory_clear map_of_filter_key)
  show ?thesis
  proof (cases "durable_up c")
    case True
    with assms show ?thesis by (simp add: get_tiers mem durable_clear split: option.splits)
  next
    case False
    then show ?thesis by (simp add: get_tiers mem split: option.splits)
  qed
qed

text \<open>
  Claim C7, as the code has it. For a non-empty namespace \<open>pfx\<close>, \<open>clear\<close> removes
  from the memory cache exactly the entries whose key starts with
  \<open>bookvision:pfx:\<close> and, when Redis can be reached, from Redis exactly the keys that
  match the pattern \<open>bookvision:pfx:*\<close>. An entry whose key neither starts with that
  prefix nor matches that pattern is returned by \<open>get\<close> after the clear as before it.
  That covers every entry set under another namespace when neither namespace contains a
  colon (and Redis, if it is reached, matches the pattern only on keys with the prefix).
\<close>

theorem clear_scoped_to_prefix:
  "pfx \<noteq> [] \<Longrightarrow>
     memory_cache (clear m c (Some pfx))
       = filter (\<lambda>(k, v). \<not> prefix (''bookvision:'' @ pfx @ '':'') k) (memory_cache c) \<and>
     (durable_up c \<longrightarrow>
        durable (clear m c (Some pfx)) k
          = (if m (''bookvision:'' @ pfx @ '':*'') k then None else durable c k)) \<and>
     (\<not> prefix (''bookvision:'' @ pfx @ '':'') (make_key h pfx' q) \<and>
      \<not> m (''bookvision:'' @ pfx @ '':*'') (make_key h pfx' q) \<longrightarrow>
        get h (clear m c (Some pfx)) pfx' q = get h c pfx' q) \<and>
     (CHR '':'' \<notin> set pfx \<and> CHR '':'' \<notin> set pfx' \<and> pfx' \<noteq> pfx \<and>
      (\<not> durable_up c \<or>
       (\<forall>k'. m (''bookvision:'' @ pfx @ '':*'') k' \<longrightarrow> prefix (''bookvision:'' @ pfx @ '':'') k')) \<longrightarrow>
        get h (clear m c (Some pfx)) pfx' q = get h c pfx' q)"
proof (intro conjI impI)
  assume p: "pfx \<noteq> []"
  then show "memory_cache (clear m c (Some pfx))
       = filter (\<lambda>(k, v). \<not> prefix (''bookvision:'' @ pfx @ '':'') k) (memory_cache c)"
    by (simp add: memory_clear)
  show "durable (clear m c (Some pfx)) k
          = (if m (''bookvision:'' @ pfx @ '':*'') k then None else durable c k)"
    if "durable_up c" using p that by (rule durable_clear)
  show "get h (clear m c (Some pfx)) pfx' q = get h c pfx' q"
    if "\<not> prefix (''bookvision:'' @ pfx @ '':'') (make_key h pfx' q) \<and>
      \<not> m (''bookvision:'' @ pfx @ '':*'') (make_key h pfx' q)"
    using p that by (intro get_after_clear) auto
  show "get h (clear m c (Some pfx)) pfx' q = get h c pfx' q"
    if a: "CHR '':'' \<notin> set pfx \<and> CHR '':'' \<notin> set pfx' \<and> pfx' \<noteq> pfx \<and>
      (\<not> durable_up c \<or>
       (\<forall>k'. m (''bookvision:'' @ pfx @ '':*'') k' \<longrightarrow> prefix (''bookvision:'' @ pfx @ '':'') k'))"
  proof -
    from a have n: "\<not> prefix (''bookvision:'' @ pfx @ '':'') (make_key h pfx' q)"
      by (intro other_namespace_key) auto
    with a have "\<not> durable_up c \<or> \<not> m (''bookvision:'' @ pfx @ '':*'') (make_key h pfx' q)"
      by blast
    with p n show ?thesis by (rule get_after_clear)
  qed
qed

text \<open>
  Claim C7 as stated fails. An entry set under the namespace \<open>a:b\<close> is retrievable, and
  is gone after \<open>clear("a")\<close>, since its key starts with \<open>bookvision:a:\<close>; and
  \<open>clear("")\<close> removes the entry of the namespace \<open>b\<close>, as an empty prefix clears
  everything.
\<close>

theorem clear_loses_other_namespace:
  "get md5_examples (set_value md5_examples (new_cache None) ''a:b'' ''abc'' ''answer'' None) ''a:b'' ''abc''
     = Some ''answer'' \<and>
   get md5_examples
     (clear prefix_glob (set_value md5_examples (new_cache None) ''a:b'' ''abc'' ''answer'' None) (Some ''a''))
     ''a:b'' ''abc'' = None \<and>
   get md5_examples
     (clear prefix_glob (set_value md5_examples (new_cache None) ''b'' ''abc'' ''answer'' None) (Some ''''))
     ''b'' ''abc'' = None"
  by (simp add: get_def set_value_def clear_def new_cache_def make_key_def md5_examples_def Let_def)

text \<open>
  Clearing \<open>query\<close> keeps the entry of \<open>summary\<close> and removes the entry of
  \<open>query\<close>, in the memory cache and in a reachable Redis.
\<close>

theorem clear_scoped_to_prefix_witness:
  "get md5_examples
     (clear prefix_glob (set_value md5_examples (new_cache None) ''summary'' ''abc'' ''answer'' None) (Some ''query''))
     ''summary'' ''abc'' = Some ''answer'' \<and>
   memory_cache
     (clear prefix_glob (set_value md5_examples (new_cache None) ''query'' ''abc'' ''answer'' None) (Some ''query''))
     = [] \<and>
   durable_up (set_value md5_examples (new_cache (Some example_redis)) ''query'' ''abc'' ''answer'' None) \<and>
   durable (set_value md5_examples (new_cache (Some example_redis)) ''query'' ''abc'' ''answer'' None)
     ''bookvision:query:900150983cd24fb0d6963f7d28e17f72'' = Some ''answer'' \<and>
   durable
     (clear prefix_glob
        (set_value md5_examples (new_cache (Some example_redis)) ''query'' ''abc'' ''answer'' None) (Some ''query''))
     ''bookvision:query:900150983cd24fb0d6963f7d28e17f72'' = None \<and>
   get md5_examples
     (clear prefix_glob
        (set_value md5_examples (new_cache (Some example_redis)) ''summary'' ''abc'' ''answer'' None) (Some ''query''))
     ''summary'' ''abc'' = Some ''answer''"
proof -
  let ?c = "set_value md5_examples (new_cache None) ''summary'' ''abc'' ''answer'' None"
  let ?d = "set_value md5_examples (new_cache None) ''query'' ''abc'' ''answer'' None"
  let ?r = "set_value md5_examples (new_cache (Some example_redis)) ''query'' ''abc'' ''answer'' None"
  let ?r2 = "set_value md5_examples (new_cache (Some example_redis)) ''summary'' ''abc'' ''answer'' None"
  have g: "get md5_examples ?c ''summary'' ''abc'' = Some ''answer''"
    by (simp add: get_def set_value_def new_cache_def make_key_def md5_examples_def Let_def)
  have u: "\<not> durable_up ?c"
    by (simp add: durable_up_def set_value_def new_cache_def Let_def)
  have d: "memory_cache ?d = [(''bookvision:query:900150983cd24fb0d6963f7d28e17f72'', ''answer'')]"
    by (simp add: set_value_def new_cache_def make_key_def md5_examples_def Let_def)
  have ru: "durable_up ?r"
    by (simp add: durable_up_def set_value_def new_cache_def example_redis_def CACHE_TTL_def Let_def)
  have rd: "durable ?r ''bookvision:query:900150983cd24fb0d6963f7d28e17f72'' = Some ''answer''"
    by (simp add: durable_def set_value_def new_cache_def example_redis_def CACHE_TTL_def
        make_key_def md5_examples_def Let_def)
  have rg: "get md5_examples ?r2 ''summary'' ''abc'' = Some ''answer''"
    by (simp add: get_def set_value_def new_cache_def example_redis_def CACHE_TTL_def
        make_key_def md5_examples_def Let_def)
  have m1: "prefix_glob ''bookvision:query:*'' ''bookvision:query:900150983cd24fb0d6963f7d28e17f72''"
    by (simp add: prefix_glob_def)
  have m2: "\<not> prefix_glob ''bookvision:query:*'' (make_key md5_examples ''summary'' ''abc'')"
    by (simp add: prefix_glob_def make_key_def)
  have m3: "\<not> prefix ''bookvision:query:'' (make_key md5_examples ''summary'' ''abc'')"
    by (simp add: make_key_def)
  have a: "get md5_examples (clear prefix_glob ?c (Some ''query'')) ''summary'' ''abc'' = Some ''answer''"
    using clear_scoped_to_prefix [where pfx = "''query''" and pfx' = "''summary''" and c = ?c
      and m = prefix_glob and h = md5_examples and q = "''abc''"] g u by simp
  have b: "memory_cache (clear prefix_glob ?d (Some ''query'')) = []"
    using clear_scoped_to_prefix [where pfx = "''query''" and c = ?d and m = prefix_glob] d by simp
  have c: "durable (clear prefix_glob ?r (Some ''query''))
      ''bookvision:query:900150983cd24fb0d6963f7d28e17f72'' = None"
    using clear_scoped_to_prefix [where pfx = "''query''" and c = ?r and m = prefix_glob
      and k = "''bookvision:query:900150983cd24fb0d6963f7d28e17f72''"] ru m1 by simp
  have e: "get md5_examples (clear prefix_glob ?r2 (Some ''query'')) ''summary'' ''abc'' = Some ''answer''"
    using clear_scoped_to_prefix [where pfx = "''query''" and pfx' = "''summary''" and c = ?r2
      and m = prefix_glob and h = md5_examples and q = "''abc''"] rg m2 m3 by simp
  show ?thesis using a b ru rd c e by (intro conjI)
qed

text \<open>
  Claim C9. Let the memory cache hold at most 1000 entries under distinct keys, as it does
  after any calls of \<open>set\<close> and \<open>clear\<close> on a new cache. After \<open>set\<close> it still
  does. When the call ends in the memory cache: if the key is new and the cache is full
  (the insertion makes 1001 entries), the 100 oldest entries are dropped, in insertion
  order, and the new entry is the last one; otherwise the entry is written and nothing is
  dropped. The expiry passed to \<open>set\<close> has no effect on what the memory cache holds.
\<close>

theorem fallback_set_bounded_fifo:
  "memory_ok c \<Longrightarrow>
     memory_ok (set_value h c pfx q v ttl) \<and>
     length (memory_cache (set_value h c pfx q v ttl)) \<le> 1000 \<and>
     (uses_fallback c ttl \<longrightarrow>
        memory_cache (set_value h c pfx q v ttl) =
          (if make_key h pfx q \<notin> fst ` set (memory_cache c) \<and> length (memory_cache c) = 1000
           then drop 100 (memory_cache c @ [(make_key h pfx q, v)])
           else AList.update (make_key h pfx q) v (memory_cache c))) \<and>
     (uses_fallback c ttl \<and> uses_fallback c ttl2 \<longrightarrow>
        set_value h c pfx q v ttl = set_value h c pfx q v ttl2)"
proof (intro conjI impI)
  assume ok: "memory_ok c"
  then show ok': "memory_ok (set_value h c pfx q v ttl)" by (rule set_value_ok)
  then show "length (memory_cache (set_value h c pfx q v ttl)) \<le> 1000"
    by (simp add: memory_ok_def)
  show "memory_cache (set_value h c pfx q v ttl) =
          (if make_key h pfx q \<notin> fst ` set (memory_cache c) \<and> length (memory_cache c) = 1000
           then drop 100 (memory_cache c @ [(make_key h pfx q, v)])
           else AList.update (make_key h pfx q) v (memory_cache c))"
    if "uses_fallback c ttl" using ok that by (rule fallback_result)
  show "set_value h c pfx q v ttl = set_value h c pfx q v ttl2"
    if "uses_fallback c ttl \<and> uses_fallback c ttl2"
    using that by (auto simp: set_value_def uses_fallback_def Let_def split: option.splits)
qed

lemma full_cache_ok: "memory_ok full_cache"
  by (simp add: memory_ok_def full_cache_def distinct_map comp_def inj_on_def)

lemma full_cache_fresh:
  "make_key md5_examples ''query'' ''a'' \<notin> fst ` set (memory_cache full_cache)"
  by (auto simp: full_cache_def make_key_def Cons_replicate_eq)

text \<open>
  A full memory cache: the call leaves 901 entries, the 100 oldest are gone, and an
  expiry of 60 seconds gives the same cache as no expiry.
\<close>

theorem fallback_set_bounded_fifo_witness:
  "memory_ok full_cache \<and> length (memory_cache full_cache) = 1000 \<and>
   uses_fallback full_cache (Some 60) \<and> uses_fallback full_cache None \<and>
   memory_cache (set_value md5_examples full_cache ''query'' ''a'' ''answer'' (Some 60))
     = drop 100 (memory_cache full_cache) @ [(''bookvision:query:0cc175b9c0f1b6a831c399e269772661'', ''answer'')] \<and>
   length (memory_cache (set_value md5_examples full_cache ''query'' ''a'' ''answer'' (Some 60))) = 901 \<and>
   set_value md5_examples full_cache ''query'' ''a'' ''answer'' (Some 60)
     = set_value md5_examples full_cache ''query'' ''a'' ''answer'' None"
proof -
  have l: "length (memory_cache full_cache) = 1000" by (simp add: full_cache_def)
  have f: "uses_fallback full_cache t" for t by (simp add: uses_fallback_def full_cache_def)
  have k: "make_key md5_examples ''query'' ''a'' = ''bookvision:query:0cc175b9c0f1b6a831c399e269772661''"
    by (simp add: make_key_def md5_examples_def)
  note t = fallback_set_bounded_fifo [OF full_cache_ok, where h = md5_examples and pfx = "''query''"
      and q = "''a''" and v = "''answer''" and ttl = "Some 60" and ?ttl2.0 = None]
  have m: "memory_cache (set_value md5_examples full_cache ''query'' ''a'' ''answer'' (Some 60))
     = drop 100 (memory_cache full_cache) @ [(''bookvision:query:0cc175b9c0f1b6a831c399e269772661'', ''answer'')]"
    using t [THEN conjunct2, THEN conjunct2, THEN conjunct1] full_cache_fresh l f k by simp
  have n: "length (memory_cache (set_value md5_examples full_cache ''query'' ''a'' ''answer'' (Some 60))) = 901"
    unfolding m by (simp add: l)
  have e: "set_value md5_examples full_cache ''query'' ''a'' ''answer'' (Some 60)
     = set_value md5_examples full_cache ''query'' ''a'' ''answer'' None"
    using t f by blast
  show ?thesis
    using full_cache_ok l f [of "Some 60"] f [of None] m n e by (intro conjI)
qed

section \<open>Properties of the chunker\<close>

subsection \<open>The loops return when the width is positive\<close>

lemma textwrap_wrap_returns: "0 < width \<Longrightarrow> textwrap_wrap wrap sentence width = Inr (wrap sentence (nat width))"
  by (simp add: textwrap_wrap_def)

lemma sentence_loop_returns:
  "0 < max_chars \<Longrightarrow> \<exists>r. sentence_loop wrap max_chars sentences i acc = Inr r"
proof (induction wrap max_chars sentences i acc rule: sentence_loop.induct)
  case (1 wrap max_chars sentences i chunks current_chunk)
  show ?case
  proof (cases "i < length sentences")
    case False
    then show ?thesis by (subst sentence_loop.simps) simp
  next
    case True
    with 1 show ?thesis
      by (subst sentence_loop.simps) (simp add: Let_def textwrap_wrap_returns)
  qed
qed

lemma para_loop_returns:
  "0 < max_chars \<Longrightarrow> \<exists>r. para_loop wrap max_chars paragraphs chunks = Inr r"
proof (induction paragraphs arbitrary: chunks)
  case Nil
  show ?case by simp
next
  case (Cons para paragraphs)
  obtain chunks1 current_chunk where
    "sentence_loop wrap max_chars (re_split [] para) 0 (chunks, []) = Inr (chunks1, current_chunk)"
    using sentence_loop_returns [OF Cons.prems] by (metis surj_pair)
  with Cons show ?case by simp
qed

lemma length_strip_le: "length (strip c) \<le> length c"
  unfolding strip_def
  by (simp add: order_trans [OF length_dropWhile_le [of isspace "rev (dropWhile isspace c)"]]
      length_dropWhile_le)

text \<open>
  Claim C5. Every chunk that \<open>_chunk_text\<close> returns has at least 50 characters after
  trimming (so at least 50 characters, not all of them whitespace). With a positive
  \<open>max_chars\<close> the function does return a list (with \<open>max_chars \<le> 0\<close> the line
  wrapping raises \<open>ValueError\<close> on a text that is not blank). For a text that is empty
  or whitespace only it returns the empty list.
\<close>

theorem chunk_text_only_long_chunks:
  "(chunk_text wrap text max_chars = Inr chunks \<longrightarrow>
      list_all (\<lambda>c. 50 \<le> length (strip c) \<and> 50 \<le> length c \<and> \<not> list_all isspace c) chunks) \<and>
   (0 < max_chars \<longrightarrow> (\<exists>cs. chunk_text wrap text max_chars = Inr cs)) \<and>
   (list_all isspace text \<longrightarrow> chunk_text wrap text max_chars = Inr [])"
proof (intro conjI impI)
  assume r: "chunk_text wrap text max_chars = Inr chunks"
  have "50 \<le> length (strip c) \<and> 50 \<le> length c \<and> \<not> list_all isspace c"
    if "c \<in> set chunks" for c
  proof -
    from r that have l: "50 \<le> length (strip c)"
      by (auto simp: chunk_text_def Let_def split: if_splits sum.splits)
    then have "strip c \<noteq> []" by auto
    then have "\<not> list_all isspace c" by (simp add: strip_Nil_iff)
    with l length_strip_le [of c] show ?thesis by simp
  qed
  then show "list_all (\<lambda>c. 50 \<le> length (strip c) \<and> 50 \<le> length c \<and> \<not> list_all isspace c) chunks"
    by (simp add: list_all_iff)
next
  assume "0 < max_chars"
  from para_loop_returns [OF this]
  show "\<exists>cs. chunk_text wrap text max_chars = Inr cs"
    by (simp add: chunk_text_def Let_def split: sum.splits) (metis sum.simps(4))
next
  assume "list_all isspace text"
  then show "chunk_text wrap text max_chars = Inr []"
    by (simp add: chunk_text_def strip_Nil_iff)
qed

lemma example_chunk:
  "chunk_text example_wrap (replicate 60 CHR ''a'') 800 = Inr [replicate 60 CHR ''a'']"
  by code_simp

text \<open>
  A paragraph of 60 letters is returned as one chunk; two spaces give no chunk.
\<close>

theorem chunk_text_only_long_chunks_witness:
  "chunk_text example_wrap (replicate 60 CHR ''a'') 800 = Inr [replicate 60 CHR ''a''] \<and>
   list_all (\<lambda>c. 50 \<le> length (strip c) \<and> 50 \<le> length c \<and> \<not> list_all isspace c)
     [replicate 60 CHR ''a''] \<and>
   (0 :: int) < 800 \<and>
   list_all isspace ''  '' \<and> chunk_text example_wrap ''  '' 800 = Inr []"
proof -
  have b: "list_all isspace ''  ''" by (simp add: isspace_def)
  have l: "list_all (\<lambda>c. 50 \<le> length (strip c) \<and> 50 \<le> length c \<and> \<not> list_all isspace c)
     [replicate 60 CHR ''a'']"
    by (rule chunk_text_only_long_chunks [of example_wrap "replicate 60 CHR ''a''" 800
      "[replicate 60 CHR ''a'']", THEN conjunct1, THEN mp, OF example_chunk])
  have e: "chunk_text example_wrap ''  '' 800 = Inr []"
    by (rule chunk_text_only_long_chunks [of example_wrap "''  ''" 800,
      THEN conjunct2, THEN conjunct2, THEN mp, OF b])
  have z: "(0 :: int) < 800" by simp
  show ?thesis using example_chunk l z b e by (intro conjI)
qed

section \<open>Properties of the ingestion pipeline\<close>

subsection \<open>Rising logs\<close>

lemma rising_Nil [simp]: "rising lo hi []"
  by (simp add: rising_def)

lemma rising_single [simp]: "rising lo hi [p] \<longleftrightarrow> lo \<le> p \<and> p \<le> hi"
  by (simp add: rising_def)

lemma rising_append:
  "rising a b xs \<Longrightarrow> rising c d ys \<Longrightarrow> a \<le> c \<Longrightarrow> b \<le> c \<Longrightarrow> b \<le> d \<Longrightarrow> rising a d (xs @ ys)"
  by (fastforce simp: rising_def sorted_append list_all_iff)

lemma rising_widen: "rising a b xs \<Longrightarrow> a' \<le> a \<Longrightarrow> b \<le> b' \<Longrightarrow> rising a' b' xs"
  by (fastforce simp: rising_def list_all_iff)

lemma rising_Cons: "rising a b xs \<Longrightarrow> lo \<le> p \<Longrightarrow> p \<le> a \<Longrightarrow> p \<le> b \<Longrightarrow> rising lo b (p # xs)"
  by (fastforce simp: rising_def list_all_iff)

subsection \<open>The scaled fractions of the progress computations\<close>

lemma scaled_mono:
  "i \<le> j \<Longrightarrow> 0 \<le> c \<Longrightarrow> \<lfloor>real i / real n * c\<rfloor> \<le> \<lfloor>real j / real n * c\<rfloor>"
  by (intro floor_mono mult_right_mono divide_right_mono) auto

lemma scaled_less: "i < n \<Longrightarrow> 0 < c \<Longrightarrow> \<lfloor>real i / real n * real_of_int c\<rfloor> < c"
proof -
  assume a: "i < n" "0 < c"
  then have "real i / real n < 1" by simp
  with a have "real i / real n * real_of_int c < 1 * real_of_int c"
    by (intro mult_strict_right_mono) auto
  then show ?thesis by (simp add: floor_less_iff)
qed

lemma scaled_le: "i \<le> n \<Longrightarrow> 0 \<le> c \<Longrightarrow> \<lfloor>real i / real n * real_of_int c\<rfloor> \<le> c"
proof -
  assume a: "i \<le> n" "0 \<le> c"
  then have "real i / real n \<le> 1" by (cases "n = 0") (auto simp: divide_le_eq_1)
  with a have "real i / real n * real_of_int c \<le> 1 * real_of_int c"
    by (intro mult_right_mono) auto
  then show ?thesis by (simp add: floor_le_iff) 
qed

subsection \<open>What each loop and each function adds to the log\<close>

text \<open>
  Every loop extends the log it is given, by percentages that never decrease and stay
  within the bounds of its phase: pages in 10 to 39, chunking in 40 to 48, embedding
  batches in 65 to 79.
\<close>

lemma rising_notify:
  assumes "rising a b xs" "lo \<le> p" "p \<le> a" "p \<le> b"
  shows "rising lo b ((if cb then [p] else []) @ xs)"
proof (cases cb)
  case True
  with assms show ?thesis by (simp add: rising_Cons)
next
  case False
  with assms show ?thesis by (auto intro: rising_widen simp: rising_def list_all_iff)
qed

lemma embed_loop_log:
  "\<exists>new. fst (embed_loop enc cb vc i (plog, acc)) = plog @ new \<and>
          rising (65 + \<lfloor>real i / real (length vc) * 15\<rfloor>) 79 new"
proof (induction enc cb vc i "(plog, acc)" arbitrary: plog acc rule: embed_loop.induct)
  case (1 enc cb vc i plog acc)
  show ?case
  proof (cases "i < length vc")
    case False
    then show ?thesis by (subst embed_loop.simps) simp
  next
    case True
    let ?p = "65 + \<lfloor>real i / real (length vc) * 15\<rfloor>"
    let ?plog' = "if 0 < i then notify cb plog ?p else plog"
    from 1 [OF True refl refl refl] obtain new where
      n: "fst (embed_loop enc cb vc (i + 100) (?plog', acc @ [map enc (take 100 (drop i vc))])) = ?plog' @ new"
      and r: "rising (65 + \<lfloor>real (i + 100) / real (length vc) * 15\<rfloor>) 79 new"
      by blast
    have m: "?p \<le> 65 + \<lfloor>real (i + 100) / real (length vc) * 15\<rfloor>"
      using scaled_mono [of i "i + 100" 15 "length vc"] by simp
    have u: "?p \<le> 79"
      using scaled_less [OF True, of 15] by simp
    have e: "?plog' @ new = plog @ ((if cb \<and> 0 < i then [?p] else []) @ new)"
      by (simp add: notify_def)
    have step: "embed_loop enc cb vc i (plog, acc)
        = embed_loop enc cb vc (i + 100) (?plog', acc @ [map enc (take 100 (drop i vc))])"
      using True by (subst embed_loop.simps) (simp add: Let_def)
    have "rising ?p 79 ((if cb \<and> 0 < i then [?p] else []) @ new)"
      using r m u by (intro rising_notify) auto
    moreover have "fst (embed_loop enc cb vc i (plog, acc))
        = plog @ ((if cb \<and> 0 < i then [?p] else []) @ new)"
      unfolding step n e ..
    ultimately show ?thesis by blast
  qed
qed

lemma extract_pages_log:
  "pno + length doc \<le> total_pages \<Longrightarrow>
   \<exists>new. fst (extract_pages cb total_pages doc pno (plog, pages_text)) = plog @ new \<and>
         rising (10 + \<lfloor>real pno / real total_pages * 30\<rfloor>) 39 new"
proof (induction doc arbitrary: pno plog pages_text)
  case Nil
  show ?case by simp
next
  case (Cons page doc)
  obtain raw ocr where page: "page = (raw, ocr)" by (cases page)
  let ?p = "10 + \<lfloor>real pno / real total_pages * 30\<rfloor>"
  let ?q = "10 + \<lfloor>real (pno + 1) / real total_pages * 30\<rfloor>"
  let ?blank = "raw = [] \<or> strip raw = []"
  let ?plog' = "if ?blank then notify cb (notify cb plog ?p) ?p else notify cb plog ?p"
  let ?pages' = "pages_text @ [(if ?blank then ocr else raw, pno + 1)]"
  let ?sent = "(if cb then [?p] else []) @ (if cb \<and> ?blank then [?p] else [])"
  from Cons.prems have lt: "pno < total_pages" and le: "(pno + 1) + length doc \<le> total_pages"
    by auto
  have m: "?p \<le> ?q"
    using scaled_mono [of pno "pno + 1" 30 total_pages] by simp
  have u: "?p \<le> 39"
    using scaled_less [OF lt, of 30] by simp
  have step: "extract_pages cb total_pages (page # doc) pno (plog, pages_text)
      = extract_pages cb total_pages doc (pno + 1) (?plog', ?pages')"
    using page by (simp add: Let_def)
  from Cons.IH [OF le, of ?plog' ?pages'] obtain new where
    n: "fst (extract_pages cb total_pages doc (pno + 1) (?plog', ?pages')) = ?plog' @ new"
    and r: "rising ?q 39 new"
    by blast
  have e: "?plog' @ new = plog @ (?sent @ new)"
    by (simp add: notify_def)
  have r1: "rising ?p 39 ((if cb \<and> ?blank then [?p] else []) @ new)"
    using r m u by (intro rising_notify) auto
  have "rising ?p 39 ((if cb then [?p] else []) @ (if cb \<and> ?blank then [?p] else []) @ new)"
    by (rule rising_notify [OF r1 order_refl order_refl u])
  then have "rising ?p 39 (?sent @ new)" by simp
  moreover have "fst (extract_pages cb total_pages (page # doc) pno (plog, pages_text))
      = plog @ (?sent @ new)"
    unfolding step n e ..
  ultimately show ?case by blast
qed

lemma extract_pages_length:
  "length (snd (extract_pages cb total_pages doc pno (plog, pages_text)))
     = length pages_text + length doc"
  by (induction doc arbitrary: pno plog pages_text) (auto simp: Let_def)

lemma chunk_pages_log:
  "idx + length pages_text \<le> n \<Longrightarrow>
   \<exists>new. fst (chunk_pages wrap cb max_chars n pages_text idx (plog, all_chunks)) = plog @ new \<and>
         rising (40 + \<lfloor>real idx / real n * 8\<rfloor>) 48 new"
proof (induction pages_text arbitrary: idx plog all_chunks)
  case Nil
  show ?case by simp
next
  case (Cons page pages_text)
  obtain page_text page_num where page: "page = (page_text, page_num)" by (cases page)
  let ?r = "if clean_text page_text \<noteq> [] then chunk_text wrap (clean_text page_text) max_chars else Inr []"
  show ?case
  proof (cases ?r)
    case (Inl e)
    then show ?thesis using page by (simp add: Let_def)
  next
    case (Inr chunks)
    let ?p = "40 + \<lfloor>real idx / real n * 8\<rfloor>"
    let ?q = "40 + \<lfloor>real (idx + 1) / real n * 8\<rfloor>"
    let ?plog' = "if (idx + 1) mod 10 = 0 then notify cb plog ?q else plog"
    from Cons.prems have le1: "idx + 1 \<le> n" and le: "(idx + 1) + length pages_text \<le> n"
      by auto
    have m: "?p \<le> ?q"
      using scaled_mono [of idx "idx + 1" 8 n] by simp
    have u: "?q \<le> 48"
      using scaled_le [OF le1, of 8] by simp
    from Cons.IH [OF le, of ?plog' "all_chunks @ map (\<lambda>chunk. (chunk, page_num)) chunks"]
    obtain new where
      n: "fst (chunk_pages wrap cb max_chars n pages_text (idx + 1)
            (?plog', all_chunks @ map (\<lambda>chunk. (chunk, page_num)) chunks)) = ?plog' @ new"
      and r: "rising ?q 48 new"
      by blast
    have "rising ?p 48 ((if cb \<and> (idx + 1) mod 10 = 0 then [?q] else []) @ new)"
      using r m u by (intro rising_notify) auto
    moreover have e: "?plog' @ new = plog @ ((if cb \<and> (idx + 1) mod 10 = 0 then [?q] else []) @ new)"
      by (simp add: notify_def)
    have step: "chunk_pages wrap cb max_chars n (page # pages_text) idx (plog, all_chunks)
        = chunk_pages wrap cb max_chars n pages_text (idx + 1)
            (?plog', all_chunks @ map (\<lambda>chunk. (chunk, page_num)) chunks)"
      using Inr page by (simp add: Let_def)
    have "fst (chunk_pages wrap cb max_chars n (page # pages_text) idx (plog, all_chunks))
        = plog @ ((if cb \<and> (idx + 1) mod 10 = 0 then [?q] else []) @ new)"
      unfolding step n e ..
    ultimately show ?thesis by blast
  qed
qed

lemma extract_and_chunk_pdf_log:
  "\<exists>new. fst (extract_and_chunk_pdf wrap cb doc max_chars plog) = plog @ new \<and> rising 10 48 new"
proof (cases doc)
  case None
  then show ?thesis by (simp add: extract_and_chunk_pdf_def)
next
  case (Some pages)
  obtain plog1 pages_text where
    ex: "extract_pages cb (length pages) pages 0 (plog, []) = (plog1, pages_text)"
    by (cases "extract_pages cb (length pages) pages 0 (plog, [])")
  obtain plog3 r where
    ch: "chunk_pages wrap cb max_chars (length pages_text) pages_text 0 (notify cb plog1 40, [])
          = (plog3, r)"
    by (cases "chunk_pages wrap cb max_chars (length pages_text) pages_text 0 (notify cb plog1 40, [])")
  from extract_pages_log [of 0 pages "length pages" cb plog "[]"] ex
  obtain n1 where p1: "plog1 = plog @ n1" and r1: "rising 10 39 n1"
    by auto
  from chunk_pages_log [of 0 pages_text "length pages_text" wrap cb max_chars "notify cb plog1 40" "[]"] ch
  obtain n3 where p3: "plog3 = notify cb plog1 40 @ n3" and r3: "rising 40 48 n3"
    by auto
  have "rising 40 48 ((if cb then [40] else []) @ n3)"
    using r3 by (intro rising_notify) auto
  with r1 have "rising 10 48 (n1 @ (if cb then [40] else []) @ n3)"
    by (rule rising_append) auto
  moreover have "plog3 = plog @ (n1 @ (if cb then [40] else []) @ n3)"
    by (simp add: p3 p1 notify_def)
  moreover have "fst (extract_and_chunk_pdf wrap cb doc max_chars plog) = plog3"
    using Some ex ch by (simp add: extract_and_chunk_pdf_def split: sum.splits)
  ultimately show ?thesis by blast
qed

lemma add_batch_log:
  "\<exists>new. progress (snd (add_batch enc cb s chunks mds)) = progress s @ new \<and> rising 65 90 new"
proof -
  let ?valid = "filter (\<lambda>(chunk, m). chunk \<noteq> [] \<and> strip chunk \<noteq> []) (zip chunks mds)"
  obtain lg ae where el: "embed_loop enc cb (map fst ?valid) 0 (notify cb (progress s) 65, []) = (lg, ae)"
    by (cases "embed_loop enc cb (map fst ?valid) 0 (notify cb (progress s) 65, [])")
  from embed_loop_log [of enc cb "map fst ?valid" 0 "notify cb (progress s) 65" "[]"] el
  obtain n2 where l2: "lg = notify cb (progress s) 65 @ n2" and r2: "rising 65 79 n2"
    by auto
  let ?a = "(if cb then [65] else []) @ n2 @ (if cb then [80] else []) @ (if cb then [85] else [])"
  have r85: "rising 85 85 (if cb then [85] else [])" by simp
  have r80: "rising 80 85 ((if cb then [80] else []) @ (if cb then [85] else []))"
    by (rule rising_notify [OF r85]) auto
  have r65: "rising 65 85 (n2 @ (if cb then [80] else []) @ (if cb then [85] else []))"
    using r2 r80 by (rule rising_append) auto
  have ra: "rising 65 85 ?a"
    by (rule rising_notify [OF r65]) auto
  have rb: "rising 65 90 (?a @ (if cb then [90] else []))"
    using ra by (rule rising_append) auto
  have l4: "notify cb (notify cb lg 80) 85 = progress s @ ?a"
    by (simp add: l2 notify_def)
  have l5: "notify cb (notify cb (notify cb lg 80) 85) 90 = progress s @ (?a @ (if cb then [90] else []))"
    by (simp add: l2 notify_def)
  have "progress (snd (add_batch enc cb s chunks mds)) = progress s
      \<or> progress (snd (add_batch enc cb s chunks mds)) = notify cb (notify cb lg 80) 85
      \<or> progress (snd (add_batch enc cb s chunks mds)) = notify cb (notify cb (notify cb lg 80) 85) 90"
    unfolding add_batch_def Let_def el
    by (auto simp: save_fields split: sum.splits)
  moreover have ra': "rising 65 90 ?a"
    by (rule rising_widen [OF ra]) auto
  ultimately show ?thesis
  proof (elim disjE)
    assume "progress (snd (add_batch enc cb s chunks mds)) = progress s"
    then show ?thesis by (intro exI [of _ "[]"]) simp
  next
    assume "progress (snd (add_batch enc cb s chunks mds)) = notify cb (notify cb lg 80) 85"
    with ra' show ?thesis unfolding l4 by blast
  next
    assume "progress (snd (add_batch enc cb s chunks mds))
      = notify cb (notify cb (notify cb lg 80) 85) 90"
    with rb show ?thesis unfolding l5 by blast
  qed
qed

lemma ingest_pdf_log:
  "\<exists>new. progress (snd (ingest_pdf wrap enc cb s doc book_id book_title stem name)) = progress s @ new
     \<and> rising 10 95 new"
proof -
  obtain plog1 chunks_with_pages where
    ex: "extract_and_chunk_pdf wrap cb doc 800 (notify cb (progress s) 10) = (plog1, chunks_with_pages)"
    by (cases "extract_and_chunk_pdf wrap cb doc 800 (notify cb (progress s) 10)")
  from extract_and_chunk_pdf_log [of wrap cb doc 800 "notify cb (progress s) 10"] ex
  obtain n1 where p1: "plog1 = notify cb (progress s) 10 @ n1" and r1: "rising 10 48 n1"
    by auto
  let ?a = "(if cb then [10] else []) @ n1"
  have ra: "rising 10 48 ?a"
    by (rule rising_notify [OF r1]) auto
  have pa: "plog1 = progress s @ ?a"
    by (simp add: p1 notify_def)
  show ?thesis
  proof (cases "chunks_with_pages = []")
    case True
    have "rising 10 95 ?a" by (rule rising_widen [OF ra]) auto
    moreover have "progress (snd (ingest_pdf wrap enc cb s doc book_id book_title stem name)) = plog1"
      using True ex by (simp add: ingest_pdf_def)
    ultimately show ?thesis unfolding pa by blast
  next
    case False
    let ?title = "case book_title of Some t \<Rightarrow> if t = [] then stem else t | None \<Rightarrow> stem"
    let ?mds = "map (\<lambda>(chunk, page_num).
                        [''book_id'' \<mapsto> PyStr book_id, ''book_title'' \<mapsto> PyStr ?title,
                         ''page'' \<mapsto> PyInt (int page_num), ''source'' \<mapsto> PyStr name])
                   chunks_with_pages"
    let ?s3 = "s\<lparr>progress := notify cb (notify cb plog1 50) 60\<rparr>"
    obtain r s1 where ab: "add_batch enc cb ?s3 (map fst chunks_with_pages) ?mds = (r, s1)"
      by (cases "add_batch enc cb ?s3 (map fst chunks_with_pages) ?mds")
    from add_batch_log [of enc cb ?s3 "map fst chunks_with_pages" ?mds] ab
    obtain n4 where p4: "progress s1 = notify cb (notify cb plog1 50) 60 @ n4" and r4: "rising 65 90 n4"
      by auto
    let ?b = "(if cb then [50] else []) @ (if cb then [60] else []) @ n4"
    let ?c = "(if cb then [90] else []) @ (if cb then [90] else []) @ (if cb then [95] else [])"
    have rb: "rising 50 90 ?b"
    proof -
      have "rising 60 90 ((if cb then [60] else []) @ n4)"
        by (rule rising_notify [OF r4]) auto
      then show ?thesis by (rule rising_notify) auto
    qed
    have rc: "rising 90 95 ?c"
    proof -
      have "rising 95 95 (if cb then [95] else [])" by simp
      then have "rising 90 95 ((if cb then [90] else []) @ (if cb then [95] else []))"
        by (rule rising_notify) auto
      then show ?thesis by (rule rising_notify) auto
    qed
    have rab: "rising 10 90 (?a @ ?b)"
      using ra rb by (rule rising_append) auto
    have rabc: "rising 10 95 ((?a @ ?b) @ ?c)"
      using rab rc by (rule rising_append) auto
    have rab': "rising 10 95 (?a @ ?b)"
      by (rule rising_widen [OF rab]) auto
    have p1': "progress s1 = progress s @ (?a @ ?b)"
      by (simp add: p4 pa notify_def)
    have p2': "notify cb (notify cb (notify cb (progress s1) 90) 90) 95 = progress s @ ((?a @ ?b) @ ?c)"
      by (simp add: p4 pa notify_def)
    have "progress (snd (ingest_pdf wrap enc cb s doc book_id book_title stem name)) = progress s1
        \<or> progress (snd (ingest_pdf wrap enc cb s doc book_id book_title stem name))
            = notify cb (notify cb (notify cb (progress s1) 90) 90) 95"
      using False ex ab by (simp add: ingest_pdf_def Let_def split: option.splits)
    then show ?thesis
    proof
      assume "progress (snd (ingest_pdf wrap enc cb s doc book_id book_title stem name)) = progress s1"
      with rab' show ?thesis unfolding p1' by blast
    next
      assume "progress (snd (ingest_pdf wrap enc cb s doc book_id book_title stem name))
            = notify cb (notify cb (notify cb (progress s1) 90) 90) 95"
      with rabc show ?thesis unfolding p2' by blast
    qed
  qed
qed

text \<open>
  Claim C8. In one run of \<open>ingest_pdf\<close>, starting with an empty log, the percentages
  the progress callback receives never decrease and lie between 0 and 100 (between 10 and
  95, in fact). This holds for a run that succeeds and also for the part of a failing run
  up to the exception.
\<close>

theorem ingest_progress_never_decreases:
  "progress s = [] \<Longrightarrow>
     sorted (progress (snd (ingest_pdf wrap enc cb s doc book_id book_title stem name))) \<and>
     list_all (\<lambda>p. 0 \<le> p \<and> p \<le> 100)
       (progress (snd (ingest_pdf wrap enc cb s doc book_id book_title stem name)))"
proof -
  assume "progress s = []"
  with ingest_pdf_log [of wrap enc cb s doc book_id book_title stem name]
  have "rising 10 95 (progress (snd (ingest_pdf wrap enc cb s doc book_id book_title stem name)))"
    by auto
  then show ?thesis by (auto simp: rising_def list_all_iff)
qed

subsection \<open>A run on a document of one page\<close>

lemma example_extract:
  "extract_and_chunk_pdf example_wrap True (Some [example_page]) 800 [10]
     = ([10, 10, 40], [(replicate 60 CHR ''a'', 1)])"
  by code_simp

lemma example_strip: "strip (replicate 60 CHR ''a'') \<noteq> []"
  by code_simp

lemma example_add_batch:
  "progress s = [10, 10, 40, 50, 60] \<Longrightarrow> index s = Some (IndexFlatIP 2) \<Longrightarrow>
   fst (add_batch example_encoder True s [replicate 60 CHR ''a''] [md]) = None \<and>
   progress (snd (add_batch example_encoder True s [replicate 60 CHR ''a''] [md]))
     = [10, 10, 40, 50, 60, 65, 80, 85, 90]"
  using example_strip
  by (simp add: add_batch_def embed_loop.simps notify_def normalize_rows_def example_encoder_def
      index_add_def IndexFlatIP_def Let_def save_fields)

lemma example_store_fields:
  "progress example_store = []" "index example_store = Some (IndexFlatIP 2)"
  by (simp_all add: example_store_def init_store_def load_def load_try_def ntotal_def IndexFlatIP_def)

lemma example_ingest:
  "fst (ingest_pdf example_wrap example_encoder True example_store (Some [example_page])
          ''book-1'' None ''book'' ''book.pdf'') = Inr ''book-1'' \<and>
   progress (snd (ingest_pdf example_wrap example_encoder True example_store (Some [example_page])
          ''book-1'' None ''book'' ''book.pdf''))
     = [10, 10, 40, 50, 60, 65, 80, 85, 90, 90, 90, 95]"
proof -
  let ?s3 = "example_store\<lparr>progress := [10, 10, 40, 50, 60]\<rparr>"
  let ?md = "[''book_id'' \<mapsto> PyStr ''book-1'', ''book_title'' \<mapsto> PyStr ''book'',
              ''page'' \<mapsto> PyInt 1, ''source'' \<mapsto> PyStr ''book.pdf'']"
  have ab: "fst (add_batch example_encoder True ?s3 [replicate 60 CHR ''a''] [?md]) = None \<and>
     progress (snd (add_batch example_encoder True ?s3 [replicate 60 CHR ''a''] [?md]))
       = [10, 10, 40, 50, 60, 65, 80, 85, 90]"
    by (rule example_add_batch) (simp_all add: example_store_fields)
  obtain r s1 where rs: "add_batch example_encoder True ?s3 [replicate 60 CHR ''a''] [?md] = (r, s1)"
    by (cases "add_batch example_encoder True ?s3 [replicate 60 CHR ''a''] [?md]")
  with ab have r: "r = None" and p: "progress s1 = [10, 10, 40, 50, 60, 65, 80, 85, 90]"
    by auto
  show ?thesis
    by (simp add: ingest_pdf_def example_store_fields notify_def example_extract rs r p)
qed

text \<open>
  A successful run on a document of one page: the twelve percentages the callback sees.
\<close>

theorem ingest_progress_never_decreases_witness:
  "progress example_store = [] \<and>
   fst (ingest_pdf example_wrap example_encoder True example_store (Some [example_page])
          ''book-1'' None ''book'' ''book.pdf'') = Inr ''book-1'' \<and>
   progress (snd (ingest_pdf example_wrap example_encoder True example_store (Some [example_page])
          ''book-1'' None ''book'' ''book.pdf''))
     = [10, 10, 40, 50, 60, 65, 80, 85, 90, 90, 90, 95] \<and>
   sorted (progress (snd (ingest_pdf example_wrap example_encoder True example_store
          (Some [example_page]) ''book-1'' None ''book'' ''book.pdf'')))"
proof -
  have s: "sorted (progress (snd (ingest_pdf example_wrap example_encoder True example_store
          (Some [example_page]) ''book-1'' None ''book'' ''book.pdf'')))"
    by (rule ingest_progress_never_decreases [OF example_store_fields(1), THEN conjunct1])
  show ?thesis
    using example_store_fields(1) example_ingest [THEN conjunct1] example_ingest [THEN conjunct2] s
    by (intro conjI)
qed

end
